theory Spec2Isabelle
  imports Main "HOL-Library.List_Lexorder" "HOL-Library.Log_Nat"
begin

section \<open>JavaScript strings\<close>

text \<open>
  A JavaScript string is a sequence of UTF-16 code units. A code unit is modelled as a
  natural number, so that the byte-order mark \<open>0xFEFF\<close> and the Latin-1 letters of the
  source (\<open>0xAA\<close>, \<open>0xE1\<close>, ...) are single elements, as \<open>length\<close>, \<open>charCodeAt\<close> and
  \<open>split\<close> see them. The relational operators on strings compare code units
  lexicographically, which is the order of \<open>HOL-Library.List_Lexorder\<close> on \<open>nat list\<close>.
\<close>

type_synonym jsstring = "nat list"

definition js :: "string \<Rightarrow> jsstring" where
  "js s = map of_char s"

text \<open>\<open>String.prototype.includes\<close>: the argument occurs at some position.\<close>

fun strIncludes :: "jsstring \<Rightarrow> jsstring \<Rightarrow> bool" where
  "strIncludes [] sub = (sub = [])"
| "strIncludes (c # s) sub = (take (length sub) (c # s) = sub \<or> strIncludes s sub)"

text \<open>
  \<open>String.prototype.split\<close> with a string separator. \<open>splitFrom sep cur s\<close> scans \<open>s\<close>
  from the left with the current piece \<open>cur\<close>; at an occurrence of the separator the
  piece is closed and the scan goes on behind the separator. With the empty separator
  JavaScript returns the code units one by one.
\<close>

function splitFrom :: "jsstring \<Rightarrow> jsstring \<Rightarrow> jsstring \<Rightarrow> jsstring list" where
  "splitFrom sep cur s =
     (if s = [] then [cur]
      else if sep \<noteq> [] \<and> take (length sep) s = sep
           then cur # splitFrom sep [] (drop (length sep) s)
      else splitFrom sep (cur @ [hd s]) (tl s))"
  by pat_completeness auto
termination
  by (relation "measure (\<lambda>(sep, cur, s). length s)") (auto simp: neq_Nil_conv)

declare splitFrom.simps [simp del]

definition split :: "jsstring \<Rightarrow> jsstring \<Rightarrow> jsstring list" where
  "split s sep = (if sep = [] then map (\<lambda>c. [c]) s else splitFrom sep [] s)"

text \<open>
  The code units that \<open>trim\<close> removes: the WhiteSpace and LineTerminator productions of
  ECMAScript (tab, LF, VT, FF, CR, space, NBSP, the Unicode space separators, the line and
  paragraph separators and the byte-order mark).
\<close>

definition isWhiteSpace :: "nat \<Rightarrow> bool" where
  "isWhiteSpace c \<longleftrightarrow>
     c = 9 \<or> c = 10 \<or> c = 11 \<or> c = 12 \<or> c = 13 \<or> c = 32 \<or> c = 160 \<or> c = 5760 \<or>
     (8192 \<le> c \<and> c \<le> 8202) \<or> c = 8232 \<or> c = 8233 \<or> c = 8239 \<or> c = 8287 \<or>
     c = 12288 \<or> c = 65279"

definition trim :: "jsstring \<Rightarrow> jsstring" where
  "trim s = rev (dropWhile isWhiteSpace (rev (dropWhile isWhiteSpace s)))"

text \<open>\<open>String.prototype.padStart\<close>: the pad string is repeated and cut to fill up.\<close>

definition padStart :: "nat \<Rightarrow> jsstring \<Rightarrow> jsstring \<Rightarrow> jsstring" where
  "padStart n pad s =
     (if n \<le> length s \<or> pad = [] then s
      else take (n - length s) (concat (replicate (n - length s) pad)) @ s)"

text \<open>An array element that may be missing; a template literal prints it as \<open>undefined\<close>.\<close>

definition nth_opt :: "'a list \<Rightarrow> nat \<Rightarrow> 'a option" where
  "nth_opt xs i = (if i < length xs then Some (xs ! i) else None)"

definition tpl :: "jsstring option \<Rightarrow> jsstring" where
  "tpl v = (case v of None \<Rightarrow> js ''undefined'' | Some s \<Rightarrow> s)"

text \<open>Decimal digits and the decimal rendering of an integer (\<open>String(n)\<close>).\<close>

definition isDigit :: "nat \<Rightarrow> bool" where
  "isDigit c \<longleftrightarrow> 48 \<le> c \<and> c \<le> 57"

function showNat :: "nat \<Rightarrow> jsstring" where
  "showNat n = (if n < 10 then [48 + n] else showNat (n div 10) @ [48 + n mod 10])"
  by pat_completeness auto
termination
  by (relation "measure id") auto

declare showNat.simps [simp del]

definition showInt :: "int \<Rightarrow> jsstring" where
  "showInt i = (if i < 0 then 45 # showNat (nat (- i)) else showNat (nat i))"

section \<open>JavaScript numbers\<close>

text \<open>
  A number is an IEEE 754 double: \<open>NaN\<close>, an infinity, or a finite value, kept as the
  rational it denotes. An arithmetic operation computes the exact result and rounds it to
  the nearest double, ties to even (\<open>roundD\<close>). The two zeros are not distinguished:
  they are equal under \<open>===\<close>, both falsy, and differ only as a divisor, where
  the zero is taken as positive.
\<close>

datatype number = NaN | PosInf | NegInf | Fin rat

definition roundHalfEven :: "rat \<Rightarrow> int" where
  "roundHalfEven x =
     (let f = \<lfloor>x\<rfloor>; r = x - of_int f
      in if r < 1 / 2 then f else if 1 / 2 < r then f + 1 else if even f then f else f + 1)"

text \<open>The exponent \<open>e\<close> of the binade of a positive rational: \<open>2^e \<le> x < 2^(e+1)\<close>.\<close>

definition floorLog2 :: "rat \<Rightarrow> int" where
  "floorLog2 x =
     (if 1 \<le> x then bitlen \<lfloor>x\<rfloor> - 1
      else let k = bitlen \<lfloor>1 / x\<rfloor>
           in if x * 2 ^ nat (k - 1) = 1 then 1 - k else - k)"

text \<open>
  A double has 53 significant bits; below \<open>2^-1022\<close> the spacing stays \<open>2^-1074\<close>
  (subnormal numbers), and a rounded magnitude of \<open>2^1024\<close> or more is an infinity.
\<close>

definition ulpExp :: "rat \<Rightarrow> int" where
  "ulpExp a = max (floorLog2 a) (- 1022) - 52"

definition roundMag :: "rat \<Rightarrow> rat" where
  "roundMag a = of_int (roundHalfEven (a / 2 powi ulpExp a)) * 2 powi ulpExp a"

definition roundD :: "rat \<Rightarrow> number" where
  "roundD x =
     (if x = 0 then Fin 0
      else let v = roundMag \<bar>x\<bar>
           in if 2 ^ 1024 \<le> v then (if 0 < x then PosInf else NegInf)
              else Fin (if 0 < x then v else - v))"

fun jsAdd :: "number \<Rightarrow> number \<Rightarrow> number" where
  "jsAdd (Fin a) (Fin b) = roundD (a + b)"
| "jsAdd NaN y = NaN"
| "jsAdd x NaN = NaN"
| "jsAdd PosInf NegInf = NaN"
| "jsAdd NegInf PosInf = NaN"
| "jsAdd PosInf y = PosInf"
| "jsAdd x PosInf = PosInf"
| "jsAdd NegInf y = NegInf"
| "jsAdd x NegInf = NegInf"

fun jsDiv :: "number \<Rightarrow> number \<Rightarrow> number" where
  "jsDiv (Fin a) (Fin b) =
     (if b = 0 then (if a = 0 then NaN else if 0 < a then PosInf else NegInf)
      else roundD (a / b))"
| "jsDiv NaN y = NaN"
| "jsDiv x NaN = NaN"
| "jsDiv (Fin a) y = Fin 0"
| "jsDiv PosInf (Fin b) = (if 0 \<le> b then PosInf else NegInf)"
| "jsDiv NegInf (Fin b) = (if 0 \<le> b then NegInf else PosInf)"
| "jsDiv x y = NaN"

text \<open>The comparisons \<open>x > y\<close> and \<open>x <= y\<close>; both are false when an operand is \<open>NaN\<close>.\<close>

fun jsGt :: "number \<Rightarrow> number \<Rightarrow> bool" where
  "jsGt (Fin a) (Fin b) = (b < a)"
| "jsGt NaN y = False"
| "jsGt x NaN = False"
| "jsGt x PosInf = False"
| "jsGt NegInf y = False"
| "jsGt x y = True"

fun jsLe :: "number \<Rightarrow> number \<Rightarrow> bool" where
  "jsLe NaN y = False"
| "jsLe x NaN = False"
| "jsLe x y = (\<not> jsGt x y)"

text \<open>A number is falsy when it is zero or \<open>NaN\<close>.\<close>

definition truthyNum :: "number \<Rightarrow> bool" where
  "truthyNum x \<longleftrightarrow> x \<noteq> NaN \<and> x \<noteq> Fin 0"

text \<open>A rational that a double holds exactly.\<close>

definition isDouble :: "rat \<Rightarrow> bool" where
  "isDouble x \<longleftrightarrow> roundD x = Fin x"

section \<open>The environment\<close>

text \<open>
  What the functions read from outside: the local wall-clock date (\<open>new Date()\<close>), the
  identifiers that \<open>generateUUID\<close> draws (one per call, indexed by the row that asks),
  the collation of \<open>localeCompare\<close>, and the Unicode case mappings.
\<close>

record env =
  nowFullYear :: int
  nowMonth :: nat
  nowDate :: nat
  randomUUID :: "nat \<Rightarrow> jsstring"
  localeCompare :: "jsstring \<Rightarrow> jsstring \<Rightarrow> int"
  toLowerCase :: "jsstring \<Rightarrow> jsstring"
  toUpperCase :: "jsstring \<Rightarrow> jsstring"

datatype error = TypeError

section \<open>Date helpers\<close>

definition getTodayStr :: "env \<Rightarrow> jsstring" where
  "getTodayStr e =
     showInt (nowFullYear e) @ js ''-'' @ padStart 2 (js ''0'') (showNat (nowMonth e + 1))
       @ js ''-'' @ padStart 2 (js ''0'') (showNat (nowDate e))"

definition formatDateBr :: "jsstring \<Rightarrow> jsstring" where
  "formatDateBr dateStr =
     (if dateStr = [] then []
      else let parts = split dateStr (js ''-'')
           in tpl (nth_opt parts 2) @ js ''/'' @ tpl (nth_opt parts 1) @ js ''/''
                @ tpl (nth_opt parts 0))"

text \<open>
  \<open>parseDateFromBr\<close> is also called on a missing column (\<open>undefined\<close>, here \<open>None\<close>).
  When the text has a single \<open>/\<close> the third piece is \<open>undefined\<close> and reading its
  \<open>length\<close> throws.
\<close>

definition parseDateFromBr :: "env \<Rightarrow> jsstring option \<Rightarrow> error + jsstring" where
  "parseDateFromBr e dateBr =
     (case dateBr of
        None \<Rightarrow> Inr (getTodayStr e)
      | Some s \<Rightarrow>
          if s = [] then Inr (getTodayStr e)
          else if strIncludes s (js ''/'') then
            (case split s (js ''/'') of
               d # m # y # rest \<Rightarrow>
                 let day = padStart 2 (js ''0'') d;
                     month = padStart 2 (js ''0'') m;
                     year = (if length y = 2 then js ''20'' @ y else y)
                 in Inr (year @ js ''-'' @ month @ js ''-'' @ day)
             | _ \<Rightarrow> Inl TypeError)
          else Inr s)"

text \<open>The form \<open>YYYY-MM-DD\<close>: ten code units, digits around two hyphens.\<close>

fun isoForm :: "jsstring \<Rightarrow> bool" where
  "isoForm [y1, y2, y3, y4, h1, m1, m2, h2, d1, d2] =
     (isDigit y1 \<and> isDigit y2 \<and> isDigit y3 \<and> isDigit y4 \<and> h1 = 45 \<and>
      isDigit m1 \<and> isDigit m2 \<and> h2 = 45 \<and> isDigit d1 \<and> isDigit d2)"
| "isoForm _ = False"

section \<open>Integers from text\<close>

text \<open>
  \<open>parseInt\<close> without a radix: leading white space is skipped, a sign is read, the
  prefix \<open>0x\<close> selects base 16, and the longest run of digits of the base is the value;
  with no digit the result is \<open>NaN\<close>, here \<open>None\<close>. A missing argument is read as
  the text \<open>undefined\<close>. The result is the integer that the digits denote; JavaScript
  rounds it to a double from \<open>2^53\<close> on, which the digits of a calendar year do not reach.
\<close>

definition digitValue :: "nat \<Rightarrow> nat option" where
  "digitValue c =
     (if 48 \<le> c \<and> c \<le> 57 then Some (c - 48)
      else if 97 \<le> c \<and> c \<le> 122 then Some (c - 87)
      else if 65 \<le> c \<and> c \<le> 90 then Some (c - 55)
      else None)"

definition isRadixDigit :: "nat \<Rightarrow> nat \<Rightarrow> bool" where
  "isRadixDigit r c = (case digitValue c of None \<Rightarrow> False | Some v \<Rightarrow> v < r)"

definition digitsValue :: "nat \<Rightarrow> jsstring \<Rightarrow> nat" where
  "digitsValue r ds =
     foldl (\<lambda>acc c. acc * r + (case digitValue c of None \<Rightarrow> 0 | Some v \<Rightarrow> v)) 0 ds"

definition parseInt :: "jsstring option \<Rightarrow> int option" where
  "parseInt v =
     (let s = dropWhile isWhiteSpace (tpl v);
          neg = (take 1 s = js ''-'');
          s1 = (if take 1 s = js ''-'' \<or> take 1 s = js ''+'' then drop 1 s else s);
          hex = (take 2 s1 = js ''0x'' \<or> take 2 s1 = js ''0X'');
          r = (if hex then 16 else 10);
          s2 = (if hex then drop 2 s1 else s1);
          ds = takeWhile (isRadixDigit r) s2
      in if ds = [] then None
         else Some ((if neg then - 1 else 1) * int (digitsValue r ds)))"

section \<open>Sorting an array\<close>

text \<open>
  \<open>Array.prototype.sort\<close> with a comparator is a stable sort: elements are arranged so
  that the comparator is not positive on neighbours, and elements that compare equal keep
  their order. For a consistent comparator that result is unique; it is computed here by
  insertion from the right.
\<close>

fun insertBy :: "('a \<Rightarrow> 'a \<Rightarrow> int) \<Rightarrow> 'a \<Rightarrow> 'a list \<Rightarrow> 'a list" where
  "insertBy cmp x [] = [x]"
| "insertBy cmp x (y # ys) = (if cmp x y \<le> 0 then x # y # ys else y # insertBy cmp x ys)"

definition sortBy :: "('a \<Rightarrow> 'a \<Rightarrow> int) \<Rightarrow> 'a list \<Rightarrow> 'a list" where
  "sortBy cmp xs = foldr (insertBy cmp) xs []"

section \<open>Data model\<close>

text \<open>
  The enumerations and interfaces of the application. The identifier field \<open>id\<close> is
  written \<open>id'\<close>. An optional or nullable field is an \<open>option\<close>; \<open>undefined\<close> and
  \<open>null\<close> are both \<open>None\<close>, as no function modelled here tells them apart. The batch
  of a characterization record is declared as a string, but \<open>parseCharCSV\<close> leaves it
  \<open>undefined\<close> for a row that ends before the batch column, so it is an \<open>option\<close> too.
\<close>

datatype AviaryId = A1 | A2 | A3 | A4

text \<open>The string value of an enumeration member; \<open>0xE1\<close> is the letter a with acute.\<close>

definition aviaryValue :: "AviaryId \<Rightarrow> jsstring" where
  "aviaryValue a =
     js ''Avi'' @ [0xE1] @ js ''rio '' @
       (case a of A1 \<Rightarrow> js ''1'' | A2 \<Rightarrow> js ''2'' | A3 \<Rightarrow> js ''3'' | A4 \<Rightarrow> js ''4'')"

datatype FeatheringQuality = MUITO_BOM | BOM | REGULAR | RUIM | PESSIMO

record CharacterizationRecord =
  id' :: jsstring
  date :: jsstring
  aviary :: AviaryId
  batchId :: "jsstring option"
  weekAge :: number
  batchWeight :: number
  uniformity :: number
  feathering :: FeatheringQuality

record EggRecord =
  id' :: jsstring
  date :: jsstring
  aviary :: AviaryId
  batchId :: "jsstring option"
  clean :: number
  dirty :: number
  cracked :: number
  floorEggs :: "number option"
  birds :: number
  weight :: "number option"
  birdWeight :: "number option"
  mortality :: number
  observation :: "jsstring option"

record ComputedRecord = EggRecord +
  totalEggs :: number
  percClean :: "number option"
  percDirty :: "number option"
  percCracked :: "number option"
  percFloorEggs :: "number option"
  layingRate :: "number option"
  fortnight :: jsstring
  month :: jsstring
  year :: number

section \<open>Fortnights\<close>

definition monthNames :: "jsstring list" where
  "monthNames = map js [''Jan'', ''Fev'', ''Mar'', ''Abr'', ''Mai'', ''Jun'',
                        ''Jul'', ''Ago'', ''Set'', ''Out'', ''Nov'', ''Dez'']"

text \<open>The two ordinals; \<open>0xAA\<close> is the feminine ordinal indicator.\<close>

definition quinzena1 :: jsstring where
  "quinzena1 = js ''1'' @ [0xAA] @ js '' Quinzena''"

definition quinzena2 :: jsstring where
  "quinzena2 = js ''2'' @ [0xAA] @ js '' Quinzena''"

text \<open>
  \<open>new Date(dateStr)\<close> on the date-only form \<open>YYYY-MM-DD\<close> of ECMAScript's date-time
  format, which is read as midnight UTC: the result is the year, the month index (from 0)
  and the day of the month that \<open>getUTCFullYear\<close>, \<open>getUTCMonth\<close> and \<open>getUTCDate\<close>
  return. \<open>None\<close> is the invalid date, whose fields are \<open>NaN\<close>. Only this form is
  covered: for other texts, and for days that the month does not have, the result of
  \<open>Date.parse\<close> is left to the engine, and they are read as invalid here.
\<close>

definition isLeapYear :: "nat \<Rightarrow> bool" where
  "isLeapYear y \<longleftrightarrow> (y mod 4 = 0 \<and> y mod 100 \<noteq> 0) \<or> y mod 400 = 0"

definition daysInMonth :: "nat \<Rightarrow> nat \<Rightarrow> nat" where
  "daysInMonth y m =
     (if m = 2 then (if isLeapYear y then 29 else 28)
      else if m = 4 \<or> m = 6 \<or> m = 9 \<or> m = 11 then 30
      else 31)"

definition parseDate :: "jsstring \<Rightarrow> (int \<times> nat \<times> nat) option" where
  "parseDate s =
     (if isoForm s then
        let y = digitsValue 10 (take 4 s);
            m = digitsValue 10 (take 2 (drop 5 s));
            d = digitsValue 10 (drop 8 s)
        in if 1 \<le> m \<and> m \<le> 12 \<and> 1 \<le> d \<and> d \<le> daysInMonth y m
           then Some (int y, m - 1, d) else None
      else None)"

definition getFortnight :: "jsstring \<Rightarrow> jsstring" where
  "getFortnight dateStr =
     (case parseDate dateStr of
        None \<Rightarrow> js ''undefined/NaN - '' @ quinzena2
      | Some (y, m, day) \<Rightarrow>
          let mStr = nth_opt monthNames m;
              part = (if day \<le> 15 then quinzena1 else quinzena2)
          in tpl mStr @ js ''/'' @ showInt y @ js '' - '' @ part)"

text \<open>The ISO text of a calendar date: year, month (from 1) and day.\<close>

definition isoDate :: "nat \<Rightarrow> nat \<Rightarrow> nat \<Rightarrow> jsstring" where
  "isoDate y m d =
     padStart 4 (js ''0'') (showNat y) @ js ''-'' @ padStart 2 (js ''0'') (showNat m)
       @ js ''-'' @ padStart 2 (js ''0'') (showNat d)"

definition validDate :: "nat \<Rightarrow> nat \<Rightarrow> nat \<Rightarrow> bool" where
  "validDate y m d \<longleftrightarrow> y \<le> 9999 \<and> 1 \<le> m \<and> m \<le> 12 \<and> 1 \<le> d \<and> d \<le> daysInMonth y m"

text \<open>
  The lookup table of \<open>compareFortnights\<close>. The source reads it as an object property,
  so a month text that names a property of \<open>Object.prototype\<close> (such as \<open>toString\<close>)
  would find that property; the table below has the twelve own keys only.
\<close>

definition monthMap :: "(jsstring \<times> int) list" where
  "monthMap = [(js ''Jan'', 0), (js ''Fev'', 1), (js ''Mar'', 2), (js ''Abr'', 3),
               (js ''Mai'', 4), (js ''Jun'', 5), (js ''Jul'', 6), (js ''Ago'', 7),
               (js ''Set'', 8), (js ''Out'', 9), (js ''Nov'', 10), (js ''Dez'', 11)]"

record fortnightKey =
  year :: int
  month :: int
  q :: int

definition parseFortnight :: "jsstring \<Rightarrow> fortnightKey" where
  "parseFortnight str =
     (let parts = split str (js '' - '')
      in if length parts < 2 then \<lparr> year = 0, month = 0, q = 0 \<rparr>
         else
           let datePart = parts ! 0; qPart = parts ! 1;
               ds = split datePart (js ''/'');
               mStr = ds ! 0; yStr = nth_opt ds 1
           in \<lparr> year = (case parseInt yStr of None \<Rightarrow> 0 | Some n \<Rightarrow> n),
                month = (case map_of monthMap mStr of Some i \<Rightarrow> i | None \<Rightarrow> - 1),
                q = (if strIncludes qPart (js ''1'' @ [0xAA]) then 1 else 2) \<rparr>)"

definition compareFortnights :: "jsstring \<Rightarrow> jsstring \<Rightarrow> int" where
  "compareFortnights a b =
     (let pa = parseFortnight a; pb = parseFortnight b
      in if year pa \<noteq> year pb then year pa - year pb
         else if month pa \<noteq> month pb then month pa - month pb
         else q pa - q pb)"

text \<open>
  The label of a fortnight as the specification writes it:
  \<open><MonthAbbrev>/<FullYear> - <Ordinal> Quinzena\<close>, for the month index \<open>month k\<close>
  (from 0), the year \<open>year k\<close> and the ordinal \<open>q k\<close>.
\<close>

definition fortnightLabel :: "fortnightKey \<Rightarrow> jsstring" where
  "fortnightLabel k =
     monthNames ! nat (month k) @ js ''/'' @ showInt (year k) @ js '' - ''
       @ (if q k = 1 then quinzena1 else quinzena2)"

definition validKey :: "fortnightKey \<Rightarrow> bool" where
  "validKey k \<longleftrightarrow>
     0 \<le> year k \<and> year k < 2 ^ 53 \<and> 0 \<le> month k \<and> month k < 12 \<and> (q k = 1 \<or> q k = 2)"

text \<open>The three labels of the specification's example, in chronological order.\<close>

definition labelA :: jsstring where
  "labelA = js ''Jan/2024 - '' @ quinzena1"

definition labelB :: jsstring where
  "labelB = js ''Jan/2024 - '' @ quinzena2"

definition labelC :: jsstring where
  "labelC = js ''Fev/2024 - '' @ quinzena1"

text \<open>The order of the specification: by year, then month, then fortnight.\<close>

definition keyLess :: "fortnightKey \<Rightarrow> fortnightKey \<Rightarrow> bool" where
  "keyLess a b \<longleftrightarrow>
     year a < year b \<or>
     (year a = year b \<and> (month a < month b \<or> (month a = month b \<and> q a < q b)))"

section \<open>Computation\<close>

text \<open>
  \<open>computeRecord\<close>. The snapshots of the record's aviary are sorted by descending date
  with the collation of \<open>localeCompare\<close>; the first of them whose date is not after the
  record's date (in the order of \<open><=\<close> on strings) gives the batch. Without such a
  snapshot the batch stored in the record stays.
\<close>

definition computeRecord :: "env \<Rightarrow> EggRecord \<Rightarrow> CharacterizationRecord list \<Rightarrow> ComputedRecord" where
  "computeRecord e record charRecords =
     (let floorEggs0 = (case floorEggs record of
                          None \<Rightarrow> Fin 0
                        | Some v \<Rightarrow> if truthyNum v then v else Fin 0);
          total = jsAdd (jsAdd (jsAdd (clean record) (dirty record)) (cracked record)) floorEggs0;
          perc = (\<lambda>v. if jsGt total (Fin 0) then Some (jsDiv v total) else None);
          rate = (if jsGt (birds record) (Fin 0) then Some (jsDiv total (birds record)) else None);
          batch =
            (if charRecords \<noteq> [] then
               let aviaryChars =
                     filter (\<lambda>c. CharacterizationRecord.aviary c = aviary record) charRecords;
                   sortedChars =
                     sortBy (\<lambda>a b. localeCompare e (CharacterizationRecord.date b)
                                                   (CharacterizationRecord.date a)) aviaryChars;
                   activeChar =
                     find (\<lambda>c. CharacterizationRecord.date c \<le> date record) sortedChars
               in (case activeChar of
                     Some c \<Rightarrow> CharacterizationRecord.batchId c
                   | None \<Rightarrow> batchId record)
             else batchId record)
      in EggRecord.extend
           (record \<lparr> batchId := batch, floorEggs := Some floorEggs0 \<rparr>)
           (ComputedRecord.fields total (perc (clean record)) (perc (dirty record))
              (perc (cracked record)) (perc floorEggs0) rate
              (getFortnight (date record))
              (take 7 (date record))
              (case parseInt (Some (take 4 (date record))) of
                 None \<Rightarrow> NaN
               | Some i \<Rightarrow> roundD (of_int i))))"

text \<open>
  The snapshots that qualify for a record, in the words of the specification: those of
  the record's aviary whose date is not after the record's date.
\<close>

definition qualifying :: "EggRecord \<Rightarrow> CharacterizationRecord list \<Rightarrow> CharacterizationRecord list" where
  "qualifying record charRecords =
     filter (\<lambda>c. CharacterizationRecord.aviary c = aviary record \<and>
                 CharacterizationRecord.date c \<le> date record) charRecords"

text \<open>A percentage that is present, finite and between 0 and 1.\<close>

definition inUnit :: "number option \<Rightarrow> bool" where
  "inUnit v = (case v of Some (Fin p) \<Rightarrow> 0 \<le> p \<and> p \<le> 1 | _ \<Rightarrow> False)"

section \<open>Numbers from text\<close>

text \<open>
  \<open>parseFloat\<close>: leading white space is skipped and the longest prefix that is a decimal
  literal is read: a sign, then \<open>Infinity\<close> or digits with an optional fraction and an
  optional exponent (an exponent counts only when it has a digit). Without any digit the
  result is \<open>NaN\<close>. The value is the double nearest to the decimal number.
\<close>

definition parseFloat :: "jsstring \<Rightarrow> number" where
  "parseFloat str =
     (let s = dropWhile isWhiteSpace str;
          neg = (take 1 s = js ''-'');
          s1 = (if take 1 s = js ''-'' \<or> take 1 s = js ''+'' then drop 1 s else s)
      in if take 8 s1 = js ''Infinity'' then (if neg then NegInf else PosInf)
         else
           let intDigits = takeWhile isDigit s1;
               s2 = dropWhile isDigit s1;
               hasDot = (take 1 s2 = js ''.'');
               fracDigits = (if hasDot then takeWhile isDigit (drop 1 s2) else []);
               s3 = (if hasDot then dropWhile isDigit (drop 1 s2) else s2);
               hasE = (take 1 s3 = js ''e'' \<or> take 1 s3 = js ''E'');
               s4 = drop 1 s3;
               expNeg = (take 1 s4 = js ''-'');
               s5 = (if take 1 s4 = js ''-'' \<or> take 1 s4 = js ''+'' then drop 1 s4 else s4);
               expDigits = (if hasE then takeWhile isDigit s5 else []);
               ex = (if expNeg then - int (digitsValue 10 expDigits)
                     else int (digitsValue 10 expDigits));
               mant = of_nat (digitsValue 10 (intDigits @ fracDigits)) / 10 ^ length fracDigits
           in if intDigits = [] \<and> fracDigits = [] then NaN
              else roundD ((if neg then - 1 else 1) * mant * 10 powi ex))"

text \<open>\<open>String.prototype.replace\<close> with a text pattern replaces the first occurrence.\<close>

fun replaceFirst :: "nat \<Rightarrow> nat \<Rightarrow> jsstring \<Rightarrow> jsstring" where
  "replaceFirst a b [] = []"
| "replaceFirst a b (c # s) = (if c = a then b # s else c # replaceFirst a b s)"

text \<open>
  The numeric coercion of the CSV parsers; \<open>parseCSV\<close> and \<open>parseCharCSV\<close> each declare
  the same \<open>parseNum\<close>. A missing column is \<open>None\<close>; the result \<open>null\<close> of
  \<open>parseNumNullable\<close> is \<open>None\<close>.
\<close>

definition parseNum :: "jsstring option \<Rightarrow> number" where
  "parseNum val =
     (case val of
        None \<Rightarrow> Fin 0
      | Some v \<Rightarrow>
          if v = [] then Fin 0
          else let cleanVal = trim v
               in if cleanVal = [] then Fin 0
                  else parseFloat (replaceFirst 44 46 cleanVal))"

definition parseNumNullable :: "jsstring option \<Rightarrow> number option" where
  "parseNumNullable val =
     (case val of
        None \<Rightarrow> None
      | Some v \<Rightarrow> if v = [] \<or> trim v = [] then None else Some (parseNum val))"

section \<open>CSV parsing\<close>

text \<open>
  \<open>splitCSVLine\<close>: a double quote toggles the quoted state and is not kept; the delimiter
  closes a field outside quotes. Each field is then trimmed, loses a leading and a trailing
  quote, and has doubled quotes merged.
\<close>

fun splitFields :: "nat \<Rightarrow> jsstring \<Rightarrow> bool \<Rightarrow> jsstring \<Rightarrow> jsstring list" where
  "splitFields delimiter current inQuote [] = [current]"
| "splitFields delimiter current inQuote (c # line) =
     (if c = 34 then splitFields delimiter current (\<not> inQuote) line
      else if c = delimiter \<and> \<not> inQuote then current # splitFields delimiter [] inQuote line
      else splitFields delimiter (current @ [c]) inQuote line)"

definition stripQuotes :: "jsstring \<Rightarrow> jsstring" where
  "stripQuotes s =
     (let s1 = (if take 1 s = [34] then drop 1 s else s)
      in if s1 \<noteq> [] \<and> last s1 = 34 then butlast s1 else s1)"

fun mergeQuotes :: "jsstring \<Rightarrow> jsstring" where
  "mergeQuotes (a # b # s) = (if a = 34 \<and> b = 34 then 34 # mergeQuotes s else a # mergeQuotes (b # s))"
| "mergeQuotes s = s"

definition splitCSVLine :: "jsstring \<Rightarrow> nat \<Rightarrow> jsstring list" where
  "splitCSVLine line delimiter =
     map (\<lambda>c. mergeQuotes (stripQuotes (trim c))) (splitFields delimiter [] False line)"

text \<open>\<open>csvText.split(/\\r\\n|\\n/)\<close>: a line ends at CR LF or at LF.\<close>

fun splitLines :: "jsstring \<Rightarrow> jsstring \<Rightarrow> jsstring list" where
  "splitLines current [] = [current]"
| "splitLines current [c] = (if c = 10 then [current, []] else [current @ [c]])"
| "splitLines current (c # d # s) =
     (if c = 10 then current # splitLines [] (d # s)
      else if c = 13 \<and> d = 10 then current # splitLines [] s
      else splitLines (current @ [c]) (d # s))"

definition csvLines :: "jsstring \<Rightarrow> jsstring list" where
  "csvLines csvText = filter (\<lambda>line. trim line \<noteq> []) (splitLines [] csvText)"

text \<open>The header line without a byte-order mark, the delimiter, and the header names.\<close>

definition stripBOM :: "jsstring \<Rightarrow> jsstring" where
  "stripBOM firstLine = (if take 1 firstLine = [0xFEFF] then drop 1 firstLine else firstLine)"

definition detectDelimiter :: "jsstring \<Rightarrow> nat" where
  "detectDelimiter firstLine = (if strIncludes firstLine (js '';'') then 59 else 44)"

definition csvHeaders :: "env \<Rightarrow> jsstring \<Rightarrow> nat \<Rightarrow> jsstring list" where
  "csvHeaders e firstLine delimiter =
     map (\<lambda>h. filter (\<lambda>c. c \<noteq> 34) (trim (toLowerCase e h))) (splitCSVLine firstLine delimiter)"

text \<open>
  \<open>indexOf\<close> and \<open>findIndex\<close> give \<open>-1\<close> when nothing is found; here the index is an
  \<open>option\<close>, and reading a column at no index, or beyond the row, gives \<open>undefined\<close>.
\<close>

fun findIndex :: "('a \<Rightarrow> bool) \<Rightarrow> 'a list \<Rightarrow> nat option" where
  "findIndex P [] = None"
| "findIndex P (x # xs) = (if P x then Some 0 else map_option Suc (findIndex P xs))"

definition col :: "jsstring list \<Rightarrow> nat option \<Rightarrow> jsstring option" where
  "col cols idx = (case idx of None \<Rightarrow> None | Some j \<Rightarrow> nth_opt cols j)"

text \<open>A text is falsy when it is missing or empty.\<close>

definition truthyStr :: "jsstring option \<Rightarrow> bool" where
  "truthyStr v \<longleftrightarrow> (case v of None \<Rightarrow> False | Some s \<Rightarrow> s \<noteq> [])"

definition aviaryOf :: "jsstring option \<Rightarrow> AviaryId" where
  "aviaryOf v =
     (let aviaryStr = (if truthyStr v then tpl v else aviaryValue A1)
      in if strIncludes aviaryStr (js ''1'') then A1
         else if strIncludes aviaryStr (js ''2'') then A2
         else if strIncludes aviaryStr (js ''3'') then A3
         else if strIncludes aviaryStr (js ''4'') then A4
         else A1)"

definition rowId :: "env \<Rightarrow> nat \<Rightarrow> jsstring list \<Rightarrow> nat option \<Rightarrow> jsstring" where
  "rowId e i cols idxId =
     (if idxId \<noteq> None \<and> truthyStr (col cols idxId) \<and> 5 < length (tpl (col cols idxId))
      then tpl (col cols idxId) else randomUUID e i)"

text \<open>
  The body rows are read in order; a row is skipped (\<open>continue\<close>) or gives a record,
  and an exception in a row ends the whole parse.
\<close>

fun parseRows :: "(nat \<Rightarrow> jsstring \<Rightarrow> error + 'r option) \<Rightarrow> nat \<Rightarrow> jsstring list \<Rightarrow> error + 'r list" where
  "parseRows f i [] = Inr []"
| "parseRows f i (line # rest) =
     (case f i line of
        Inl err \<Rightarrow> Inl err
      | Inr None \<Rightarrow> parseRows f (Suc i) rest
      | Inr (Some r) \<Rightarrow>
          (case parseRows f (Suc i) rest of Inl err \<Rightarrow> Inl err | Inr rs \<Rightarrow> Inr (r # rs)))"

definition eggRow :: "env \<Rightarrow> jsstring list \<Rightarrow> nat \<Rightarrow> nat \<Rightarrow> jsstring \<Rightarrow> error + EggRecord option" where
  "eggRow e headers delimiter i line =
     (let idxId = findIndex (\<lambda>h. h = js ''id'') headers;
          idxDate = findIndex (\<lambda>h. h = js ''data'') headers;
          idxAviary = findIndex (\<lambda>h. strIncludes h (js ''avi'' @ [0xE1] @ js ''rio'')
                                     \<or> strIncludes h (js ''aviario'')) headers;
          idxBatch = findIndex (\<lambda>h. strIncludes h (js ''lote'')) headers;
          idxClean = findIndex (\<lambda>h. strIncludes h (js ''limpos'')) headers;
          idxDirty = findIndex (\<lambda>h. strIncludes h (js ''sujos'')) headers;
          idxCracked = findIndex (\<lambda>h. strIncludes h (js ''trincados'')) headers;
          idxFloor = findIndex (\<lambda>h. strIncludes h (js ''cama'')) headers;
          idxBirds = findIndex (\<lambda>h. strIncludes h (js ''aves'') \<and> strIncludes h (js ''vivas'')) headers;
          idxWeight = findIndex (\<lambda>h. strIncludes h (js ''peso'') \<and> strIncludes h (js ''ovos'')) headers;
          idxBirdWeight =
            findIndex (\<lambda>h. strIncludes h (js ''peso'') \<and> strIncludes h (js ''aves'')) headers;
          idxMortality = findIndex (\<lambda>h. strIncludes h (js ''mort'')
                                        \<or> strIncludes h (js ''mortalidade'')) headers;
          idxObs = findIndex (\<lambda>h. strIncludes h (js ''obs'')
                                  \<or> strIncludes h (js ''observa'' @ [0xE7, 0xE3] @ js ''o'')) headers;
          cols = splitCSVLine line delimiter
      in if length cols < 3 then Inr None
         else
           (case parseDateFromBr e (col cols idxDate) of
              Inl err \<Rightarrow> Inl err
            | Inr dateStr \<Rightarrow>
                let record = \<lparr> id' = rowId e i cols idxId,
                      date = dateStr,
                      aviary = aviaryOf (col cols idxAviary),
                      batchId = (if idxBatch \<noteq> None then col cols idxBatch else None),
                      clean = (if idxClean \<noteq> None then parseNum (col cols idxClean) else Fin 0),
                      dirty = (if idxDirty \<noteq> None then parseNum (col cols idxDirty) else Fin 0),
                      cracked = (if idxCracked \<noteq> None then parseNum (col cols idxCracked) else Fin 0),
                      floorEggs = Some (if idxFloor \<noteq> None then parseNum (col cols idxFloor) else Fin 0),
                      birds = (if idxBirds \<noteq> None then parseNum (col cols idxBirds) else Fin 0),
                      weight = (if idxWeight \<noteq> None then parseNumNullable (col cols idxWeight) else None),
                      birdWeight = (if idxBirdWeight \<noteq> None
                                    then parseNumNullable (col cols idxBirdWeight) else None),
                      mortality = (if idxMortality \<noteq> None
                                   then parseNum (col cols idxMortality) else Fin 0),
                      observation = (if idxObs \<noteq> None then col cols idxObs else None) \<rparr>
                in if date record = [] \<and> clean record = Fin 0 \<and> birds record = Fin 0
                   then Inr None
                   else Inr (Some record)))"

definition parseCSV :: "env \<Rightarrow> jsstring \<Rightarrow> error + EggRecord list" where
  "parseCSV e csvText =
     (let lines = csvLines csvText
      in if length lines < 2 then Inr []
         else
           let firstLine = stripBOM (lines ! 0);
               delimiter = detectDelimiter firstLine;
               headers = csvHeaders e firstLine delimiter
           in parseRows (eggRow e headers delimiter) 1 (drop 1 lines))"

definition featheringOf :: "env \<Rightarrow> jsstring option \<Rightarrow> FeatheringQuality" where
  "featheringOf e v =
     (let featheringStr = (if truthyStr v then tpl v else js ''Bom'');
          fUpper = toUpperCase e featheringStr
      in if strIncludes fUpper (js ''MUITO BOM'') then MUITO_BOM
         else if strIncludes fUpper (js ''BOM'') then BOM
         else if strIncludes fUpper (js ''REGULAR'') then REGULAR
         else if strIncludes fUpper (js ''RUIM'') then RUIM
         else if strIncludes fUpper (js ''PESSIMO'')
                 \<or> strIncludes fUpper (js ''P'' @ [0xC9] @ js ''SSIMO'') then PESSIMO
         else BOM)"

definition charRow ::
  "env \<Rightarrow> jsstring list \<Rightarrow> nat \<Rightarrow> nat \<Rightarrow> jsstring \<Rightarrow> error + CharacterizationRecord option" where
  "charRow e headers delimiter i line =
     (let idxId = findIndex (\<lambda>h. h = js ''id'') headers;
          idxDate = findIndex (\<lambda>h. h = js ''data'') headers;
          idxAviary = findIndex (\<lambda>h. strIncludes h (js ''avi'' @ [0xE1] @ js ''rio'')
                                     \<or> strIncludes h (js ''aviario'')) headers;
          idxBatch = findIndex (\<lambda>h. strIncludes h (js ''lote'')) headers;
          idxAge = findIndex (\<lambda>h. strIncludes h (js ''idade'') \<or> strIncludes h (js ''semanas'')) headers;
          idxWeight = findIndex (\<lambda>h. strIncludes h (js ''peso'')) headers;
          idxUniformity = findIndex (\<lambda>h. strIncludes h (js ''uniformidade'')) headers;
          idxFeathering = findIndex (\<lambda>h. strIncludes h (js ''empenamento'')) headers;
          cols = splitCSVLine line delimiter
      in if length cols < 3 then Inr None
         else
           (case parseDateFromBr e (col cols idxDate) of
              Inl err \<Rightarrow> Inl err
            | Inr dateStr \<Rightarrow>
                let record = \<lparr> CharacterizationRecord.id' = rowId e i cols idxId,
                      CharacterizationRecord.date = dateStr,
                      CharacterizationRecord.aviary = aviaryOf (col cols idxAviary),
                      CharacterizationRecord.batchId =
                        (if idxBatch \<noteq> None then col cols idxBatch else Some []),
                      weekAge = (if idxAge \<noteq> None then parseNum (col cols idxAge) else Fin 0),
                      batchWeight = (if idxWeight \<noteq> None then parseNum (col cols idxWeight) else Fin 0),
                      uniformity = (if idxUniformity \<noteq> None
                                    then parseNum (col cols idxUniformity) else Fin 0),
                      feathering = featheringOf e (col cols idxFeathering) \<rparr>
                in if CharacterizationRecord.date record = [] \<or> jsLe (weekAge record) (Fin 0)
                   then Inr None
                   else Inr (Some record)))"

definition parseCharCSV :: "env \<Rightarrow> jsstring \<Rightarrow> error + CharacterizationRecord list" where
  "parseCharCSV e csvText =
     (let lines = csvLines csvText
      in if length lines < 2 then Inr []
         else
           let firstLine = stripBOM (lines ! 0);
               delimiter = detectDelimiter firstLine;
               headers = csvHeaders e firstLine delimiter
           in parseRows (charRow e headers delimiter) 1 (drop 1 lines))"

text \<open>
  The code units with which a text that \<open>parseNum\<close> can read as a number may start:
  a digit, a sign, a decimal point or comma, or the \<open>I\<close> of \<open>Infinity\<close>.
\<close>

definition numericStart :: "nat \<Rightarrow> bool" where
  "numericStart c \<longleftrightarrow> isDigit c \<or> c = 43 \<or> c = 45 \<or> c = 46 \<or> c = 44 \<or> c = 73"

section \<open>Import merge\<close>

text \<open>
  A JavaScript \<open>Map\<close> keeps its entries in insertion order, and \<open>set\<close> on a key that
  is present replaces the value where it stands: an association list with update in
  place. \<open>values()\<close> lists the second components.
\<close>

fun mapSet :: "'k \<Rightarrow> 'v \<Rightarrow> ('k \<times> 'v) list \<Rightarrow> ('k \<times> 'v) list" where
  "mapSet k v [] = [(k, v)]"
| "mapSet k v (p # ps) = (if fst p = k then (k, v) # ps else p # mapSet k v ps)"

text \<open>
  The two import handlers of the application differ in the key and the record type only.
  \<open>importMerge keyOf keepId prev newRecords\<close> is their common body: \<open>keyOf\<close> builds the key
  text and \<open>keepId imported existing\<close> is \<open>{...imported, id: existing.id}\<close>.
\<close>

definition importStep ::
  "('r \<Rightarrow> jsstring) \<Rightarrow> ('r \<Rightarrow> 'r \<Rightarrow> 'r) \<Rightarrow> (jsstring \<times> 'r) list \<Rightarrow> 'r \<Rightarrow> (jsstring \<times> 'r) list" where
  "importStep keyOf keepId recordMap importedRec =
     (let key = keyOf importedRec
      in case map_of recordMap key of
           Some existing \<Rightarrow> mapSet key (keepId importedRec existing) recordMap
         | None \<Rightarrow> mapSet key importedRec recordMap)"

definition importMerge ::
  "('r \<Rightarrow> jsstring) \<Rightarrow> ('r \<Rightarrow> 'r \<Rightarrow> 'r) \<Rightarrow> 'r list \<Rightarrow> 'r list \<Rightarrow> 'r list" where
  "importMerge keyOf keepId prev newRecords =
     map snd (foldl (importStep keyOf keepId)
                (foldl (\<lambda>recordMap r. mapSet (keyOf r) r recordMap) [] prev) newRecords)"

definition recordKey :: "EggRecord \<Rightarrow> jsstring" where
  "recordKey r = date r @ js ''|'' @ aviaryValue (aviary r)"

definition charKey :: "CharacterizationRecord \<Rightarrow> jsstring" where
  "charKey r =
     CharacterizationRecord.date r @ js ''|'' @ aviaryValue (CharacterizationRecord.aviary r)
       @ js ''|'' @ tpl (CharacterizationRecord.batchId r)"

definition handleImportRecords :: "EggRecord list \<Rightarrow> EggRecord list \<Rightarrow> EggRecord list" where
  "handleImportRecords prev newRecords =
     importMerge recordKey (\<lambda>importedRec existing. importedRec \<lparr> id' := id' existing \<rparr>)
       prev newRecords"

definition handleImportCharRecords ::
  "CharacterizationRecord list \<Rightarrow> CharacterizationRecord list \<Rightarrow> CharacterizationRecord list" where
  "handleImportCharRecords prev newRecords =
     importMerge charKey
       (\<lambda>importedRec existing.
          importedRec \<lparr> CharacterizationRecord.id' := CharacterizationRecord.id' existing \<rparr>)
       prev newRecords"

text \<open>
  The merge in the words of the specification. For a key, the entry of the result takes
  its content from the last incoming record with the key and its identifier from the
  record that first brought the key in: the existing record with the key (the last one,
  when the existing collection repeats the key) or else the first incoming record with
  it. Without an incoming record the existing record stays.
\<close>

definition lastWith :: "('r \<Rightarrow> jsstring) \<Rightarrow> jsstring \<Rightarrow> 'r list \<Rightarrow> 'r option" where
  "lastWith keyOf k rs = find (\<lambda>r. keyOf r = k) (rev rs)"

definition firstWith :: "('r \<Rightarrow> jsstring) \<Rightarrow> jsstring \<Rightarrow> 'r list \<Rightarrow> 'r option" where
  "firstWith keyOf k rs = find (\<lambda>r. keyOf r = k) rs"

definition mergedEntry ::
  "('r \<Rightarrow> jsstring) \<Rightarrow> ('r \<Rightarrow> 'r \<Rightarrow> 'r) \<Rightarrow> 'r list \<Rightarrow> 'r list \<Rightarrow> jsstring \<Rightarrow> 'r option" where
  "mergedEntry keyOf keepId prev newRecords k =
     (case lastWith keyOf k newRecords of
        None \<Rightarrow> lastWith keyOf k prev
      | Some n \<Rightarrow>
          (case lastWith keyOf k prev of
             Some p \<Rightarrow> Some (keepId n p)
           | None \<Rightarrow> map_option (keepId n) (firstWith keyOf k newRecords)))"

section \<open>A sample environment\<close>

text \<open>
  A concrete environment for evaluating the functions: 10 March 2024 on the clock,
  identifiers numbered by row, collation by code units, and the case mappings of the
  Basic Latin and Latin-1 letters.
\<close>

definition codeUnitCompare :: "jsstring \<Rightarrow> jsstring \<Rightarrow> int" where
  "codeUnitCompare a b = (if a < b then - 1 else if a = b then 0 else 1)"

definition latin1Lower :: "nat \<Rightarrow> nat" where
  "latin1Lower c =
     (if (65 \<le> c \<and> c \<le> 90) \<or> (192 \<le> c \<and> c \<le> 222 \<and> c \<noteq> 215) then c + 32 else c)"

definition latin1Upper :: "nat \<Rightarrow> nat" where
  "latin1Upper c =
     (if (97 \<le> c \<and> c \<le> 122) \<or> (224 \<le> c \<and> c \<le> 254 \<and> c \<noteq> 247) then c - 32 else c)"

definition sampleEnv :: env where
  "sampleEnv = \<lparr> nowFullYear = 2024, nowMonth = 2, nowDate = 10,
     randomUUID = (\<lambda>i. js ''generated-'' @ showNat i),
     localeCompare = codeUnitCompare,
     toLowerCase = map latin1Lower,
     toUpperCase = map latin1Upper \<rparr>"

text \<open>
  The example of the specification: a record of aviary 1 dated 2024-03-10, with a stored
  batch \<open>L0\<close>, and snapshots of aviary 1 dated 2024-01-01 (batch \<open>L1\<close>) and 2024-03-01
  (batch \<open>L2\<close>); and the same record dated 2023-12-01, before every snapshot.
\<close>

definition exampleRecord :: EggRecord where
  "exampleRecord = \<lparr> id' = js ''rec-0001'', date = js ''2024-03-10'', aviary = A1,
     batchId = Some (js ''L0''), clean = Fin 0, dirty = Fin 1, cracked = Fin 4,
     floorEggs = Some (Fin 1), birds = Fin 10, weight = None, birdWeight = None,
     mortality = Fin 0, observation = None \<rparr>"

definition exampleSnapshots :: "CharacterizationRecord list" where
  "exampleSnapshots =
     [\<lparr> CharacterizationRecord.id' = js ''char-0001'',
        CharacterizationRecord.date = js ''2024-01-01'',
        CharacterizationRecord.aviary = A1, CharacterizationRecord.batchId = Some (js ''L1''),
        weekAge = Fin 20, batchWeight = Fin 1500, uniformity = Fin 90, feathering = BOM \<rparr>,
      \<lparr> CharacterizationRecord.id' = js ''char-0002'',
        CharacterizationRecord.date = js ''2024-03-01'',
        CharacterizationRecord.aviary = A1, CharacterizationRecord.batchId = Some (js ''L2''),
        weekAge = Fin 18, batchWeight = Fin 1400, uniformity = Fin 85, feathering = BOM \<rparr>]"

definition earlyRecord :: EggRecord where
  "earlyRecord = exampleRecord \<lparr> date := js ''2023-12-01'' \<rparr>"

text \<open>
  Records for the import: one with the date and aviary of \<open>exampleRecord\<close>, and two that
  share a date and aviary no existing record has.
\<close>

definition incomingSameKey :: EggRecord where
  "incomingSameKey = exampleRecord \<lparr> id' := js ''imp-0001'', clean := Fin 5 \<rparr>"

definition incomingFresh :: EggRecord where
  "incomingFresh = exampleRecord \<lparr> id' := js ''imp-0002'', date := js ''2024-03-11'' \<rparr>"

definition incomingFreshAgain :: EggRecord where
  "incomingFreshAgain =
     exampleRecord \<lparr> id' := js ''imp-0003'', date := js ''2024-03-11'', clean := Fin 7 \<rparr>"

text \<open>
  Texts for the parsers: a file with a header line only, and a file whose single body row
  has an empty date, no clean eggs and no birds.
\<close>

definition headerOnlyCsv :: jsstring where
  "headerOnlyCsv = js ''Data;Avi'' @ [0xE1] @ js ''rio;Ovos Limpos;Aves Vivas'' @ [10]"

definition blankRowCsv :: jsstring where
  "blankRowCsv = js ''Data;Avi'' @ [0xE1] @ js ''rio;Ovos Limpos;Aves Vivas'' @ [10]
                   @ js '';Avi'' @ [0xE1] @ js ''rio 1;0;0''"

section \<open>Splitting and searching: basic facts\<close>

lemma js_simps [simp]:
  "js [] = []" "js (c # s) = of_char c # js s"
  by (simp_all add: js_def)

lemma splitFrom_Nil [simp]: "splitFrom sep cur [] = [cur]"
  by (simp add: splitFrom.simps)

lemma splitFrom_char_Cons:
  "splitFrom [k] cur (c # s) =
     (if c = k then cur # splitFrom [k] [] s else splitFrom [k] (cur @ [c]) s)"
  by (subst splitFrom.simps) (auto simp: take_Suc_conv_app_nth)

lemma splitFrom_char_free:
  "k \<notin> set a \<Longrightarrow> splitFrom [k] cur (a @ s) = splitFrom [k] (cur @ a) s"
  by (induction a arbitrary: cur) (auto simp: splitFrom_char_Cons)

lemma splitFrom_char_last: "k \<notin> set a \<Longrightarrow> splitFrom [k] cur a = [cur @ a]"
  using splitFrom_char_free [of k a cur "[]"] by simp

lemma splitFrom_char_piece:
  "k \<notin> set a \<Longrightarrow> splitFrom [k] cur (a @ k # s) = (cur @ a) # splitFrom [k] [] s"
  by (simp add: splitFrom_char_free splitFrom_char_Cons)

lemma strIncludes_char: "strIncludes s [k] \<longleftrightarrow> k \<in> set s"
  by (induction s) auto

lemma split_three:
  assumes "k \<notin> set a" "k \<notin> set b" "k \<notin> set c"
  shows "split (a @ k # b @ k # c) [k] = [a, b, c]"
  using assms by (simp add: split_def splitFrom_char_piece splitFrom_char_last)

lemma splitFrom_Cons:
  "splitFrom sep cur (c # s) =
     (if sep \<noteq> [] \<and> take (length sep) (c # s) = sep
      then cur # splitFrom sep [] (drop (length sep) (c # s))
      else splitFrom sep (cur @ [c]) s)"
  by (subst splitFrom.simps) simp

lemma splitFrom_dash_free:
  "32 \<notin> set a \<Longrightarrow>
     splitFrom (js '' - '') cur (a @ js '' - '' @ b) = (cur @ a) # splitFrom (js '' - '') [] b"
proof (induction a arbitrary: cur)
  case Nil
  show ?case by (simp add: splitFrom_Cons)
next
  case (Cons c a)
  then have "c \<noteq> 32" by auto
  then have "splitFrom (js '' - '') cur ((c # a) @ js '' - '' @ b) =
               splitFrom (js '' - '') (cur @ [c]) (a @ js '' - '' @ b)"
    by (simp add: splitFrom_Cons)
  with Cons show ?case by simp
qed

lemma split_quinzena:
  "splitFrom (js '' - '') [] quinzena1 = [quinzena1]"
  "splitFrom (js '' - '') [] quinzena2 = [quinzena2]"
  by (simp_all add: quinzena1_def quinzena2_def splitFrom_Cons)

lemma splitFrom_absent:
  "sep \<noteq> [] \<Longrightarrow> \<not> strIncludes s sep \<Longrightarrow> splitFrom sep cur s = [cur @ s]"
  by (induction s arbitrary: cur) (auto simp: splitFrom_Cons)

section \<open>Display and ISO dates\<close>

lemma formatDateBr_parts:
  assumes "45 \<notin> set y" "45 \<notin> set m" "45 \<notin> set d"
  shows "formatDateBr (y @ 45 # m @ 45 # d) = d @ 47 # m @ 47 # y"
  using split_three [OF assms]
  by (simp add: formatDateBr_def nth_opt_def tpl_def)

lemma parseDateFromBr_parts:
  assumes "47 \<notin> set d" "47 \<notin> set m" "47 \<notin> set y"
  shows "parseDateFromBr e (Some (d @ 47 # m @ 47 # y)) =
           Inr ((if length y = 2 then js ''20'' @ y else y) @ 45 # padStart 2 (js ''0'') m
                  @ 45 # padStart 2 (js ''0'') d)"
  using split_three [OF assms]
  by (simp add: parseDateFromBr_def strIncludes_char)

lemma isoForm_parts:
  assumes "isoForm s"
  obtains y m d where "s = y @ 45 # m @ 45 # d" "length y = 4" "length m = 2" "length d = 2"
    "\<forall>c \<in> set y \<union> set m \<union> set d. isDigit c"
proof -
  from assms obtain y1 y2 y3 y4 m1 m2 d1 d2 where
    s: "s = [y1, y2, y3, y4, 45, m1, m2, 45, d1, d2]"
    and dg: "isDigit y1" "isDigit y2" "isDigit y3" "isDigit y4" "isDigit m1" "isDigit m2"
      "isDigit d1" "isDigit d2"
    by (auto elim!: isoForm.elims(2))
  show thesis
    by (rule that [of "[y1, y2, y3, y4]" "[m1, m2]" "[d1, d2]"]) (use s dg in auto)
qed

lemma parse_format_iso:
  assumes "isoForm s"
  shows "parseDateFromBr e (Some (formatDateBr s)) = Inr s"
proof -
  from assms obtain y m d where s: "s = y @ 45 # m @ 45 # d"
    and len: "length y = 4" "length m = 2" "length d = 2"
    and dg: "\<forall>c \<in> set y \<union> set m \<union> set d. isDigit c"
    by (rule isoForm_parts)
  have nd: "\<not> isDigit 45" "\<not> isDigit 47"
    by (simp_all add: isDigit_def)
  from dg nd have no45: "45 \<notin> set y" "45 \<notin> set m" "45 \<notin> set d"
    by blast+
  from dg nd have no47: "47 \<notin> set d" "47 \<notin> set m" "47 \<notin> set y"
    by blast+
  have "formatDateBr s = d @ 47 # m @ 47 # y"
    unfolding s by (rule formatDateBr_parts [OF no45])
  then show ?thesis
    using parseDateFromBr_parts [OF no47, of e] len by (simp add: s padStart_def)
qed

section \<open>Fortnight labels\<close>

lemma month_cases:
  assumes "m < (12::nat)"
  obtains "m = 0" | "m = 1" | "m = 2" | "m = 3" | "m = 4" | "m = 5" | "m = 6" | "m = 7"
    | "m = 8" | "m = 9" | "m = 10" | "m = 11"
  using assms by atomize_elim arith

lemma monthNames_facts:
  assumes "m < 12"
  shows "32 \<notin> set (monthNames ! m)" and "47 \<notin> set (monthNames ! m)"
    and "map_of monthMap (monthNames ! m) = Some (int m)"
  using assms by (cases m rule: month_cases; simp add: monthNames_def monthMap_def)+

lemma showNat_digits: "c \<in> set (showNat n) \<Longrightarrow> isDigit c"
proof (induction n rule: showNat.induct)
  case (1 n)
  show ?case
  proof (cases "n < 10")
    case True
    with "1.prems" show ?thesis by (simp add: showNat.simps [of n] isDigit_def)
  next
    case False
    have "n mod 10 < 10" by simp
    with False "1.prems" "1.IH" show ?thesis
      by (auto simp: showNat.simps [of n] isDigit_def)
  qed
qed

lemma showNat_nonempty: "showNat n \<noteq> []"
  by (subst showNat.simps) simp

lemma digitsValue_snoc:
  "digitsValue r (ds @ [c]) = digitsValue r ds * r + (case digitValue c of None \<Rightarrow> 0 | Some v \<Rightarrow> v)"
  by (simp add: digitsValue_def)

lemma digitsValue_showNat: "digitsValue 10 (showNat n) = n"
proof (induction n rule: showNat.induct)
  case (1 n)
  show ?case
  proof (cases "n < 10")
    case True
    then show ?thesis by (simp add: showNat.simps [of n] digitsValue_def digitValue_def)
  next
    case False
    have "n mod 10 < 10" by simp
    then have "digitValue (48 + n mod 10) = Some (n mod 10)"
      by (simp add: digitValue_def)
    with False "1.IH" show ?thesis
      by (simp add: showNat.simps [of n] digitsValue_snoc)
  qed
qed

lemma isDigit_radix: "isDigit c \<Longrightarrow> isRadixDigit 10 c"
  by (auto simp: isDigit_def isRadixDigit_def digitValue_def)

lemma parseInt_digits:
  assumes "ds \<noteq> []" "\<forall>c \<in> set ds. isDigit c"
  shows "parseInt (Some ds) = Some (int (digitsValue 10 ds))"
proof -
  from assms obtain c cs where ds: "ds = c # cs" and c: "isDigit c"
    by (cases ds) auto
  have cs: "cs \<noteq> [] \<Longrightarrow> isDigit (hd cs)"
    using assms(2) ds by (cases cs) auto
  have nw: "\<not> isWhiteSpace c" using c by (auto simp: isDigit_def isWhiteSpace_def)
  have sgn: "c \<noteq> 45" "c \<noteq> 43" using c by (auto simp: isDigit_def)
  have nx: "take 2 ds \<noteq> js ''0x''" "take 2 ds \<noteq> js ''0X''"
    using cs by (cases cs; auto simp: ds isDigit_def)+
  have tw: "takeWhile (isRadixDigit 10) ds = ds"
    using assms(2) by (auto intro!: takeWhile_eq_all_conv [THEN iffD2] isDigit_radix)
  have dw: "dropWhile isWhiteSpace ds = ds" using nw by (simp add: ds)
  have t1: "take 1 ds = [c]" by (simp add: ds)
  show ?thesis
    unfolding parseInt_def tpl_def Let_def option.case dw t1
    using sgn nx assms(1) by (simp add: tw)
qed

lemma parseInt_showNat: "parseInt (Some (showNat n)) = Some (int n)"
  using parseInt_digits [of "showNat n"] showNat_digits [of _ n] showNat_nonempty [of n]
  by (simp add: digitsValue_showNat)

lemma parseFortnight_no_separator:
  assumes "\<not> strIncludes s (js '' - '')"
  shows "parseFortnight s = \<lparr> year = 0, month = 0, q = 0 \<rparr>"
proof -
  have "split s (js '' - '') = [s]"
    using splitFrom_absent [OF _ assms, of "[]"] by (simp add: split_def)
  then show ?thesis by (simp add: parseFortnight_def)
qed

lemma parseFortnight_label:
  assumes "validKey k"
  shows "parseFortnight (fortnightLabel k) = k"
proof -
  define m where "m = nat (month k)"
  define y where "y = nat (year k)"
  define qz where "qz = (if q k = 1 then quinzena1 else quinzena2)"
  from assms have m: "m < 12" "month k = int m" and y: "year k = int y"
    and qk: "q k = 1 \<or> q k = 2"
    by (auto simp: validKey_def m_def y_def)
  note mf = monthNames_facts [OF m(1)]
  have dg: "c \<noteq> 32 \<and> c \<noteq> 47" if "c \<in> set (showNat y)" for c
  proof -
    from that have "isDigit c" by (rule showNat_digits)
    then show ?thesis by (simp add: isDigit_def)
  qed
  define a where "a = monthNames ! m @ 47 # showNat y"
  have si: "showInt (year k) = showNat y"
    using assms by (simp add: showInt_def validKey_def y_def)
  have lab: "fortnightLabel k = a @ js '' - '' @ qz"
    by (simp add: fortnightLabel_def a_def qz_def m_def si)
  have "32 \<notin> set a" using mf(1) dg by (fastforce simp: a_def)
  then have "splitFrom (js '' - '') [] (a @ js '' - '' @ qz) = a # splitFrom (js '' - '') [] qz"
    using splitFrom_dash_free [of a "[]" qz] by simp
  moreover have "splitFrom (js '' - '') [] qz = [qz]"
    using split_quinzena by (simp add: qz_def)
  ultimately have parts: "split (fortnightLabel k) (js '' - '') = [a, qz]"
    by (simp add: lab split_def)
  have "47 \<notin> set (showNat y)" using dg by blast
  then have ds: "split a (js ''/'') = [monthNames ! m, showNat y]"
    using mf(2) by (simp add: a_def split_def splitFrom_char_piece splitFrom_char_last)
  have qv: "(if strIncludes qz (js ''1'' @ [0xAA]) then 1 else 2) = q k"
    using qk by (auto simp: qz_def quinzena1_def quinzena2_def)
  have "parseFortnight (fortnightLabel k) =
          \<lparr> year = int y, month = int m, q = q k \<rparr>"
    unfolding parseFortnight_def parts Let_def
    using qv ds by (simp add: nth_opt_def parseInt_showNat mf(3))
  then show ?thesis using m(2) y by simp
qed
lemma example_labels:
  "labelA = fortnightLabel \<lparr> year = 2024, month = 0, q = 1 \<rparr>"
  "labelB = fortnightLabel \<lparr> year = 2024, month = 0, q = 2 \<rparr>"
  "labelC = fortnightLabel \<lparr> year = 2024, month = 1, q = 1 \<rparr>"
  by (simp_all add: labelA_def labelB_def labelC_def fortnightLabel_def monthNames_def
      showInt_def showNat.simps)

lemma example_keys:
  "parseFortnight labelA = \<lparr> year = 2024, month = 0, q = 1 \<rparr>"
  "parseFortnight labelB = \<lparr> year = 2024, month = 0, q = 2 \<rparr>"
  "parseFortnight labelC = \<lparr> year = 2024, month = 1, q = 1 \<rparr>"
  unfolding example_labels by (rule parseFortnight_label, simp add: validKey_def)+

lemma example_sorted:
  "sortBy compareFortnights [labelA, labelB, labelC] = [labelA, labelB, labelC]"
  "sortBy compareFortnights [labelA, labelC, labelB] = [labelA, labelB, labelC]"
  "sortBy compareFortnights [labelB, labelA, labelC] = [labelA, labelB, labelC]"
  "sortBy compareFortnights [labelB, labelC, labelA] = [labelA, labelB, labelC]"
  "sortBy compareFortnights [labelC, labelA, labelB] = [labelA, labelB, labelC]"
  "sortBy compareFortnights [labelC, labelB, labelA] = [labelA, labelB, labelC]"
  by (simp_all add: sortBy_def compareFortnights_def example_keys)

text \<open>
  C4. On well-formed labels (the labels of a year, a month of the table and an ordinal)
  \<open>compareFortnights\<close> is a strict total order: a label is parsed into its year, month
  index and ordinal; the comparator is negative exactly when the parsed triples are in
  lexicographic order, zero exactly on equal labels, and changes sign when its arguments
  are swapped; it is transitive; sorting any arrangement of the three example labels gives
  the chronological order; and a text without the separator is parsed as \<open>(0,0,0)\<close>,
  which is below every well-formed label.
\<close>

theorem compareFortnights_strict_total_order:
  assumes "validKey ka" "validKey kb" "validKey kc"
  shows
    "parseFortnight (fortnightLabel ka) = ka \<and>
     (compareFortnights (fortnightLabel ka) (fortnightLabel kb) < 0 \<longleftrightarrow> keyLess ka kb) \<and>
     (compareFortnights (fortnightLabel ka) (fortnightLabel kb) = 0 \<longleftrightarrow>
        fortnightLabel ka = fortnightLabel kb) \<and>
     (compareFortnights (fortnightLabel ka) (fortnightLabel kb) > 0 \<longleftrightarrow>
        compareFortnights (fortnightLabel kb) (fortnightLabel ka) < 0) \<and>
     (compareFortnights (fortnightLabel ka) (fortnightLabel kb) < 0 \<and>
      compareFortnights (fortnightLabel kb) (fortnightLabel kc) < 0 \<longrightarrow>
        compareFortnights (fortnightLabel ka) (fortnightLabel kc) < 0) \<and>
     (\<forall>p \<in> {[labelA, labelB, labelC], [labelA, labelC, labelB], [labelB, labelA, labelC],
             [labelB, labelC, labelA], [labelC, labelA, labelB], [labelC, labelB, labelA]}.
        sortBy compareFortnights p = [labelA, labelB, labelC]) \<and>
     (\<not> strIncludes s (js '' - '') \<longrightarrow>
        parseFortnight s = \<lparr> year = 0, month = 0, q = 0 \<rparr> \<and>
        compareFortnights s (fortnightLabel ka) < 0)"
proof -
  note pa = parseFortnight_label [OF assms(1)]
  note pb = parseFortnight_label [OF assms(2)]
  note pc = parseFortnight_label [OF assms(3)]
  have lt: "compareFortnights (fortnightLabel ka) (fortnightLabel kb) < 0 \<longleftrightarrow> keyLess ka kb"
    by (auto simp: compareFortnights_def pa pb keyLess_def)
  have eq: "compareFortnights (fortnightLabel ka) (fortnightLabel kb) = 0 \<longleftrightarrow>
              fortnightLabel ka = fortnightLabel kb"
  proof
    assume "compareFortnights (fortnightLabel ka) (fortnightLabel kb) = 0"
    then have "ka = kb"
      by (auto simp: compareFortnights_def pa pb Let_def split: if_splits)
    then show "fortnightLabel ka = fortnightLabel kb" by simp
  next
    assume "fortnightLabel ka = fortnightLabel kb"
    then show "compareFortnights (fortnightLabel ka) (fortnightLabel kb) = 0"
      by (simp add: compareFortnights_def)
  qed
  have sw: "compareFortnights (fortnightLabel ka) (fortnightLabel kb) > 0 \<longleftrightarrow>
              compareFortnights (fortnightLabel kb) (fortnightLabel ka) < 0"
    by (auto simp: compareFortnights_def pa pb)
  have tr: "compareFortnights (fortnightLabel ka) (fortnightLabel kb) < 0 \<and>
            compareFortnights (fortnightLabel kb) (fortnightLabel kc) < 0 \<longrightarrow>
              compareFortnights (fortnightLabel ka) (fortnightLabel kc) < 0"
    by (auto simp: compareFortnights_def pa pb pc split: if_splits)
  have mn: "parseFortnight s = \<lparr> year = 0, month = 0, q = 0 \<rparr> \<and>
            compareFortnights s (fortnightLabel ka) < 0"
    if "\<not> strIncludes s (js '' - '')"
    using parseFortnight_no_separator [OF that] assms(1)
    by (auto simp: compareFortnights_def pa validKey_def Let_def)
  from pa lt eq sw tr mn example_sorted show ?thesis by simp
qed

theorem compareFortnights_strict_total_order_witness:
  "validKey \<lparr> year = 2024, month = 0, q = 1 \<rparr> \<and>
   validKey \<lparr> year = 2024, month = 0, q = 2 \<rparr> \<and>
   validKey \<lparr> year = 2024, month = 1, q = 1 \<rparr> \<and>
   parseFortnight labelA = \<lparr> year = 2024, month = 0, q = 1 \<rparr> \<and>
   compareFortnights labelA labelB < 0 \<and> compareFortnights labelB labelC < 0 \<and>
   compareFortnights labelA labelC < 0 \<and> compareFortnights labelB labelA > 0 \<and>
   sortBy compareFortnights [labelC, labelA, labelB] = [labelA, labelB, labelC] \<and>
   \<not> strIncludes (js ''Jan/2024'') (js '' - '') \<and>
   parseFortnight (js ''Jan/2024'') = \<lparr> year = 0, month = 0, q = 0 \<rparr> \<and>
   compareFortnights (js ''Jan/2024'') labelA < 0"
  using compareFortnights_strict_total_order [where ka = "\<lparr> year = 2024, month = 0, q = 1 \<rparr>"
      and kb = "\<lparr> year = 2024, month = 0, q = 2 \<rparr>"
      and kc = "\<lparr> year = 2024, month = 1, q = 1 \<rparr>" and s = "js ''Jan/2024''"]
  by (simp add: validKey_def keyLess_def example_labels [symmetric] compareFortnights_def
      example_keys)


section \<open>The fortnight of a date\<close>

lemma padStart_zero:
  "padStart n [48] s = replicate (n - length s) 48 @ s"
proof -
  have "concat (replicate k [c]) = replicate k c" for k and c :: nat
    by (induction k) auto
  then show ?thesis by (simp add: padStart_def)
qed

lemma showNat_length: "0 < k \<Longrightarrow> n < 10 ^ k \<Longrightarrow> length (showNat n) \<le> k"
proof (induction n arbitrary: k rule: showNat.induct)
  case (1 n)
  show ?case
  proof (cases "n < 10")
    case True
    with "1.prems" show ?thesis by (simp add: showNat.simps [of n])
  next
    case False
    with "1.prems" obtain j where k: "k = Suc j" and j: "0 < j"
      by (cases k; cases "k - 1") auto
    from "1.prems" k have "n div 10 < 10 ^ j"
      by (simp add: less_mult_imp_div_less mult.commute)
    with "1.IH" False j have "length (showNat (n div 10)) \<le> j" by simp
    with False k show ?thesis by (simp add: showNat.simps [of n])
  qed
qed

lemma digitsValue_zeros: "digitsValue 10 (replicate k 48 @ ds) = digitsValue 10 ds"
proof -
  have "foldl (\<lambda>acc c. acc * 10 + (case digitValue c of None \<Rightarrow> 0 | Some v \<Rightarrow> v)) 0
          (replicate k 48) = 0"
    by (induction k) (simp_all add: digitValue_def)
  then show ?thesis by (simp add: digitsValue_def)
qed

lemma padded_number:
  assumes "0 < k" "n < 10 ^ k"
  shows "length (padStart k (js ''0'') (showNat n)) = k"
    and "digitsValue 10 (padStart k (js ''0'') (showNat n)) = n"
    and "\<forall>c \<in> set (padStart k (js ''0'') (showNat n)). isDigit c"
  using showNat_length [OF assms] showNat_digits [of _ n]
  by (auto simp: padStart_zero digitsValue_zeros digitsValue_showNat isDigit_def)

lemma isoForm_build:
  assumes "length y = 4" "length m = 2" "length d = 2"
    "\<forall>c \<in> set y. isDigit c" "\<forall>c \<in> set m. isDigit c" "\<forall>c \<in> set d. isDigit c"
  shows "isoForm (y @ 45 # m @ 45 # d)"
proof -
  from assms(1) obtain y1 y2 y3 y4 where y: "y = [y1, y2, y3, y4]"
    by (auto simp: length_Suc_conv numeral_eq_Suc)
  from assms(2) obtain m1 m2 where m: "m = [m1, m2]"
    by (auto simp: length_Suc_conv numeral_eq_Suc)
  from assms(3) obtain d1 d2 where d: "d = [d1, d2]"
    by (auto simp: length_Suc_conv numeral_eq_Suc)
  from assms(4-6) show ?thesis by (simp add: y m d)
qed

lemma parseDate_isoDate:
  assumes "validDate y m d"
  shows "parseDate (isoDate y m d) = Some (int y, m - 1, d)"
proof -
  define Y where "Y = padStart 4 (js ''0'') (showNat y)"
  define M where "M = padStart 2 (js ''0'') (showNat m)"
  define D where "D = padStart 2 (js ''0'') (showNat d)"
  have dm: "daysInMonth y m \<le> 31" by (simp add: daysInMonth_def)
  from assms dm have b: "y < 10 ^ 4" "m < 10 ^ 2" "d < 10 ^ 2"
    by (auto simp: validDate_def)
  note py = padded_number [OF _ b(1), folded Y_def]
  note pm = padded_number [OF _ b(2), folded M_def]
  note pd = padded_number [OF _ b(3), folded D_def]
  have s: "isoDate y m d = Y @ 45 # M @ 45 # D"
    by (simp add: isoDate_def Y_def M_def D_def)
  have f: "isoForm (Y @ 45 # M @ 45 # D)"
    using py pm pd by (intro isoForm_build) simp_all
  have t: "take 4 (Y @ 45 # M @ 45 # D) = Y" "take 2 (drop 5 (Y @ 45 # M @ 45 # D)) = M"
    "drop 8 (Y @ 45 # M @ 45 # D) = D"
    using py(1) pm(1) pd(1) by simp_all
  show ?thesis
    unfolding s parseDate_def t Let_def
    using f py(2) pm(2) pd(2) assms by (simp add: validDate_def)
qed

lemma getFortnight_isoDate:
  assumes "validDate y m d"
  shows "getFortnight (isoDate y m d) =
           fortnightLabel \<lparr> year = int y, month = int m - 1, q = (if d \<le> 15 then 1 else 2) \<rparr>"
proof -
  from assms have m: "m - 1 < 12" "nat (int m - 1) = m - 1" "1 \<le> m"
    by (auto simp: validDate_def)
  then have "nth_opt monthNames (m - 1) = Some (monthNames ! (m - 1))"
    by (simp add: nth_opt_def monthNames_def)
  then show ?thesis
    using m by (simp add: getFortnight_def parseDate_isoDate [OF assms] fortnightLabel_def tpl_def)
qed

text \<open>
  C6. For every valid calendar date, given in the ISO form, \<open>getFortnight\<close> returns the
  label \<open><MonthAbbrev>/<FullYear> - 1\<ordfeminine> Quinzena\<close> when the day of the month is at most 15
  and \<open><MonthAbbrev>/<FullYear> - 2\<ordfeminine> Quinzena\<close> when it is 16 or more; the abbreviation is
  the entry of the month in a table of twelve, and year, month and day are those written
  in the date, whatever the time zone of the environment.
\<close>

theorem getFortnight_of_valid_date:
  assumes "validDate y m d"
  shows
    "getFortnight (isoDate y m d) =
       monthNames ! (m - 1) @ js ''/'' @ showNat y @ js '' - ''
         @ (if d \<le> 15 then quinzena1 else quinzena2) \<and>
     length monthNames = 12 \<and>
     parseDate (isoDate y m d) = Some (int y, m - 1, d)"
proof -
  from assms have "nat (int m - 1) = m - 1"
    by (simp add: validDate_def)
  then show ?thesis
    using getFortnight_isoDate [OF assms] parseDate_isoDate [OF assms]
    by (simp add: fortnightLabel_def showInt_def monthNames_def)
qed

theorem getFortnight_of_valid_date_witness:
  "validDate 2024 3 10 \<and> isoDate 2024 3 10 = js ''2024-03-10'' \<and>
   getFortnight (js ''2024-03-10'') = js ''Mar/2024 - '' @ quinzena1 \<and>
   validDate 2024 2 29 \<and> isoDate 2024 2 29 = js ''2024-02-29'' \<and>
   getFortnight (js ''2024-02-29'') = js ''Fev/2024 - '' @ quinzena2"
  using getFortnight_of_valid_date [of 2024 3 10] getFortnight_of_valid_date [of 2024 2 29]
  by (simp add: validDate_def daysInMonth_def isLeapYear_def isoDate_def padStart_def
      showNat.simps monthNames_def)

section \<open>Conversions between display and ISO dates\<close>

lemma showNat_long:
  assumes "1000 \<le> n"
  shows "4 \<le> length (showNat n)"
proof -
  from assms have a: "\<not> n < 10" "\<not> n div 10 < 10" "\<not> n div 10 div 10 < 10"
    by simp_all
  have "showNat (n div 10 div 10 div 10) \<noteq> []"
    by (rule showNat_nonempty)
  then have "1 \<le> length (showNat (n div 10 div 10 div 10))"
    by (cases "showNat (n div 10 div 10 div 10)") simp_all
  then show ?thesis
    using a
    by (simp add: showNat.simps [of n] showNat.simps [of "n div 10"]
        showNat.simps [of "n div 10 div 10"])
qed

lemma getTodayStr_isoDate:
  assumes "nowFullYear e = int yr" "1000 \<le> yr"
  shows "getTodayStr e = isoDate yr (nowMonth e + 1) (nowDate e)"
  using assms showNat_long [OF assms(2)]
  by (simp add: getTodayStr_def isoDate_def showInt_def padStart_def)

lemma isoForm_isoDate:
  assumes "y \<le> 9999" "m \<le> 99" "d \<le> 99"
  shows "isoForm (isoDate y m d)"
proof -
  from assms have b: "y < 10 ^ 4" "m < 10 ^ 2" "d < 10 ^ 2" by simp_all
  note py = padded_number [OF _ b(1)]
  note pm = padded_number [OF _ b(2)]
  note pd = padded_number [OF _ b(3)]
  have "isoForm (padStart 4 (js ''0'') (showNat y) @ 45 # padStart 2 (js ''0'') (showNat m)
          @ 45 # padStart 2 (js ''0'') (showNat d))"
    using py pm pd by (intro isoForm_build) simp_all
  then show ?thesis by (simp add: isoDate_def)
qed

lemma formatDateBr_iso:
  assumes "isoForm s"
  shows "formatDateBr s = drop 8 s @ js ''/'' @ take 2 (drop 5 s) @ js ''/'' @ take 4 s"
proof -
  from assms obtain y m d where s: "s = y @ 45 # m @ 45 # d"
    and len: "length y = 4" "length m = 2" "length d = 2"
    and dg: "\<forall>c \<in> set y \<union> set m \<union> set d. isDigit c"
    by (rule isoForm_parts)
  have nd: "\<not> isDigit 45"
    by (simp add: isDigit_def)
  from dg nd have no45: "45 \<notin> set y" "45 \<notin> set m" "45 \<notin> set d"
    by blast+
  have "formatDateBr s = d @ 47 # m @ 47 # y"
    unfolding s by (rule formatDateBr_parts [OF no45])
  then show ?thesis using len by (simp add: s)
qed

text \<open>
  C7. \<open>formatDateBr\<close> turns an ISO date \<open>YYYY-MM-DD\<close> into the display form
  \<open>DD/MM/YYYY\<close> (the three pieces between the hyphens, in reverse order, between
  slashes), and parsing that display form gives the ISO date back. Parsing a display date
  \<open>d/m/y\<close> pads day and month to two places with a leading zero and writes \<open>20\<close> before a
  two-digit year; a non-empty text without \<open>/\<close> is returned as it is; the empty text
  gives the date on the clock of the environment: its year, its month index plus one and
  its day of the month, the last two padded to two places, which is the ISO text of that
  date for a four-digit year; a missing text is read as the empty one.
\<close>

theorem date_conversions_bidirectional:
  "(45 \<notin> set y \<and> 45 \<notin> set m \<and> 45 \<notin> set d \<longrightarrow>
      formatDateBr (y @ js ''-'' @ m @ js ''-'' @ d) = d @ js ''/'' @ m @ js ''/'' @ y) \<and>
   (isoForm s \<longrightarrow>
      formatDateBr s = drop 8 s @ js ''/'' @ take 2 (drop 5 s) @ js ''/'' @ take 4 s \<and>
      parseDateFromBr e (Some (formatDateBr s)) = Inr s) \<and>
   (47 \<notin> set dd \<and> 47 \<notin> set mm \<and> 47 \<notin> set yy \<longrightarrow>
      parseDateFromBr e (Some (dd @ js ''/'' @ mm @ js ''/'' @ yy)) =
        Inr ((if length yy = 2 then js ''20'' @ yy else yy) @ js ''-''
               @ padStart 2 (js ''0'') mm @ js ''-'' @ padStart 2 (js ''0'') dd)) \<and>
   padStart 2 (js ''0'') [c] = [48, c] \<and>
   (length t \<ge> 2 \<longrightarrow> padStart 2 (js ''0'') t = t) \<and>
   (t \<noteq> [] \<and> \<not> strIncludes t (js ''/'') \<longrightarrow> parseDateFromBr e (Some t) = Inr t) \<and>
   parseDateFromBr e (Some []) =
     Inr (showInt (nowFullYear e) @ js ''-'' @ padStart 2 (js ''0'') (showNat (nowMonth e + 1))
            @ js ''-'' @ padStart 2 (js ''0'') (showNat (nowDate e))) \<and>
   parseDateFromBr e None = parseDateFromBr e (Some []) \<and>
   (nowFullYear e = int yr \<and> 1000 \<le> yr \<and> yr \<le> 9999 \<and> nowMonth e < 12 \<and> nowDate e \<le> 31 \<longrightarrow>
      parseDateFromBr e (Some []) = Inr (isoDate yr (nowMonth e + 1) (nowDate e)) \<and>
      isoForm (isoDate yr (nowMonth e + 1) (nowDate e)))"
proof -
  have 1: "formatDateBr (y @ js ''-'' @ m @ js ''-'' @ d) = d @ js ''/'' @ m @ js ''/'' @ y"
    if "45 \<notin> set y" "45 \<notin> set m" "45 \<notin> set d"
    using formatDateBr_parts [OF that] by simp
  have 2: "parseDateFromBr e (Some (dd @ js ''/'' @ mm @ js ''/'' @ yy)) =
        Inr ((if length yy = 2 then js ''20'' @ yy else yy) @ js ''-''
               @ padStart 2 (js ''0'') mm @ js ''-'' @ padStart 2 (js ''0'') dd)"
    if "47 \<notin> set dd" "47 \<notin> set mm" "47 \<notin> set yy"
    using parseDateFromBr_parts [OF that, of e] by simp
  have 3: "parseDateFromBr e (Some []) = Inr (isoDate yr (nowMonth e + 1) (nowDate e)) \<and>
      isoForm (isoDate yr (nowMonth e + 1) (nowDate e))"
    if "nowFullYear e = int yr" "1000 \<le> yr" "yr \<le> 9999" "nowMonth e < 12" "nowDate e \<le> 31"
    using getTodayStr_isoDate [OF that(1,2)] isoForm_isoDate [of yr "nowMonth e + 1" "nowDate e"] that
    by (simp add: parseDateFromBr_def)
  have 4: "padStart 2 (js ''0'') [c] = [48, c]" "length t \<ge> 2 \<longrightarrow> padStart 2 (js ''0'') t = t"
    "t \<noteq> [] \<and> \<not> strIncludes t (js ''/'') \<longrightarrow> parseDateFromBr e (Some t) = Inr t"
    by (simp_all add: parseDateFromBr_def padStart_def)
  have 5: "parseDateFromBr e (Some []) =
     Inr (showInt (nowFullYear e) @ js ''-'' @ padStart 2 (js ''0'') (showNat (nowMonth e + 1))
            @ js ''-'' @ padStart 2 (js ''0'') (showNat (nowDate e)))"
    by (simp add: parseDateFromBr_def getTodayStr_def)
  have 6: "parseDateFromBr e None = parseDateFromBr e (Some [])"
    by (simp add: parseDateFromBr_def)
  from 1 2 3 4 5 6 formatDateBr_iso [of s] parse_format_iso [of s e] show ?thesis
    by blast
qed

theorem date_conversions_bidirectional_witness:
  "isoForm (js ''2024-03-05'') \<and>
   formatDateBr (js ''2024-03-05'') = js ''05/03/2024'' \<and>
   parseDateFromBr sampleEnv (Some (formatDateBr (js ''2024-03-05''))) = Inr (js ''2024-03-05'') \<and>
   parseDateFromBr sampleEnv (Some (js ''5/3/24'')) = Inr (js ''2024-03-05'') \<and>
   \<not> strIncludes (js ''2024-03-05'') (js ''/'') \<and>
   parseDateFromBr sampleEnv (Some (js ''2024-03-05'')) = Inr (js ''2024-03-05'') \<and>
   nowFullYear sampleEnv = 2024 \<and> nowMonth sampleEnv = 2 \<and> nowDate sampleEnv = 10 \<and>
   parseDateFromBr sampleEnv (Some []) = Inr (js ''2024-03-10'')"
proof -
  note T = date_conversions_bidirectional [where s = "js ''2024-03-05''" and e = sampleEnv
      and y = "js ''2024''" and m = "js ''03''" and d = "js ''05''"
      and dd = "js ''5''" and mm = "js ''3''" and yy = "js ''24''" and t = "js ''2024-03-05''"
      and yr = 2024 and c = 48]
  have h1: "45 \<notin> set (js ''2024'') \<and> 45 \<notin> set (js ''03'') \<and> 45 \<notin> set (js ''05'')"
    by simp
  have h2: "isoForm (js ''2024-03-05'')"
    by (simp add: isDigit_def)
  have h3: "47 \<notin> set (js ''5'') \<and> 47 \<notin> set (js ''3'') \<and> 47 \<notin> set (js ''24'')"
    by simp
  have h4: "js ''2024-03-05'' \<noteq> [] \<and> \<not> strIncludes (js ''2024-03-05'') (js ''/'')"
    by (simp add: strIncludes_char)
  have h5: "nowFullYear sampleEnv = int 2024 \<and> 1000 \<le> (2024::nat) \<and> (2024::nat) \<le> 9999 \<and>
      nowMonth sampleEnv < 12 \<and> nowDate sampleEnv \<le> 31"
    by (simp add: sampleEnv_def)
  have c: "nowFullYear sampleEnv = 2024" "nowMonth sampleEnv = 2" "nowDate sampleEnv = 10"
    by (simp_all add: sampleEnv_def)
  from T h1 have "formatDateBr (js ''2024'' @ js ''-'' @ js ''03'' @ js ''-'' @ js ''05'') =
      js ''05'' @ js ''/'' @ js ''03'' @ js ''/'' @ js ''2024''"
    by blast
  then have f1: "formatDateBr (js ''2024-03-05'') = js ''05/03/2024''"
    by simp
  from T h2 have f2:
    "parseDateFromBr sampleEnv (Some (formatDateBr (js ''2024-03-05''))) = Inr (js ''2024-03-05'')"
    by blast
  from T h3 have "parseDateFromBr sampleEnv (Some (js ''5'' @ js ''/'' @ js ''3'' @ js ''/'' @ js ''24'')) =
      Inr ((if length (js ''24'') = 2 then js ''20'' @ js ''24'' else js ''24'') @ js ''-''
               @ padStart 2 (js ''0'') (js ''3'') @ js ''-'' @ padStart 2 (js ''0'') (js ''5''))"
    by blast
  then have f3: "parseDateFromBr sampleEnv (Some (js ''5/3/24'')) = Inr (js ''2024-03-05'')"
    by (simp add: padStart_def)
  from T h4 have f4:
    "parseDateFromBr sampleEnv (Some (js ''2024-03-05'')) = Inr (js ''2024-03-05'')"
    by blast
  from T h5 have "parseDateFromBr sampleEnv (Some []) =
      Inr (isoDate 2024 (nowMonth sampleEnv + 1) (nowDate sampleEnv))"
    by blast
  then have f5: "parseDateFromBr sampleEnv (Some []) = Inr (js ''2024-03-10'')"
    by (simp add: c isoDate_def padStart_def showNat.simps)
  from h2 h4 c f1 f2 f3 f4 f5 show ?thesis
    by blast
qed

section \<open>Rounding to a double\<close>

lemma rat_floor_numeral [simp]:
  "\<lfloor>(numeral a :: rat) / numeral b\<rfloor> = numeral a div numeral b"
  using floor_divide_of_int_eq [of "numeral a" "numeral b", where ?'a = rat] by simp

lemma roundHalfEven_of_int [simp]: "roundHalfEven (of_int n) = n"
  by (simp add: roundHalfEven_def)

lemma roundHalfEven_le: "x \<le> of_int n \<Longrightarrow> roundHalfEven x \<le> n"
proof -
  assume a: "x \<le> of_int n"
  show ?thesis
  proof (cases "x = of_int n")
    case True
    then show ?thesis by simp
  next
    case False
    with a have "x < of_int n" by simp
    then have "\<lfloor>x\<rfloor> < n" by (simp add: floor_less_iff)
    then have "\<lfloor>x\<rfloor> + 1 \<le> n" by simp
    moreover have "roundHalfEven x \<le> \<lfloor>x\<rfloor> + 1"
      by (simp add: roundHalfEven_def Let_def)
    ultimately show ?thesis by linarith
  qed
qed

lemma roundHalfEven_ge: "of_int n \<le> x \<Longrightarrow> n \<le> roundHalfEven x"
proof -
  assume "of_int n \<le> x"
  then have "n \<le> \<lfloor>x\<rfloor>" by (simp add: le_floor_iff)
  moreover have "\<lfloor>x\<rfloor> \<le> roundHalfEven x"
    by (simp add: roundHalfEven_def Let_def)
  ultimately show ?thesis by linarith
qed

lemma floorLog2_bounds:
  assumes "0 < x"
  shows "2 powi floorLog2 x \<le> x \<and> x < 2 powi (floorLog2 x + 1)"
proof (cases "1 \<le> x")
  case True
  define n where "n = \<lfloor>x\<rfloor>"
  define e where "e = nat (bitlen n - 1)"
  from True have n: "0 < n" by (simp add: n_def)
  then have bl: "0 < bitlen n"
    using bitlen_nonneg [of n] bitlen_eq_zero_iff [of n] by linarith
  have se: "nat (bitlen n) = Suc e" using bl by (simp add: e_def)
  from bitlen_bounds [OF n] have b: "2 ^ e \<le> n" "n < 2 ^ Suc e"
    unfolding se e_def [symmetric] by simp_all
  have fl: "floorLog2 x = int e"
    using True bl by (simp add: floorLog2_def n_def e_def)
  have "of_int (2 ^ e) \<le> (of_int n :: rat)" using b(1) by (simp only: of_int_le_iff)
  also have "\<dots> \<le> x" by (simp add: n_def)
  finally have lo: "2 ^ e \<le> x" by simp
  have "x < of_int (n + 1)" unfolding n_def by linarith
  also have "\<dots> \<le> of_int (2 ^ Suc e)" using b(2) by (simp only: of_int_le_iff; simp)
  finally have hi: "x < 2 ^ Suc e" by simp
  have "2 powi (int e + 1) = (2::rat) ^ Suc e"
    by (simp add: power_int_add)
  with lo hi show ?thesis by (simp add: fl)
next
  case False
  define y where "y = 1 / x"
  define n where "n = \<lfloor>y\<rfloor>"
  define j where "j = nat (bitlen n - 1)"
  from False assms have y1: "1 < y" by (simp add: y_def)
  then have n: "0 < n" by (simp add: n_def)
  then have bl: "0 < bitlen n"
    using bitlen_nonneg [of n] bitlen_eq_zero_iff [of n] by linarith
  then have k: "bitlen n = int (Suc j)" by (simp add: j_def)
  have sj: "nat (bitlen n) = Suc j" using bl by (simp add: j_def)
  from bitlen_bounds [OF n] have b: "2 ^ j \<le> n" "n < 2 ^ Suc j"
    unfolding sj j_def [symmetric] by simp_all
  have "of_int (2 ^ j) \<le> (of_int n :: rat)" using b(1) by (simp only: of_int_le_iff)
  also have "\<dots> \<le> y" by (simp add: n_def)
  finally have lo: "2 ^ j \<le> y" by simp
  have "y < of_int (n + 1)" unfolding n_def by linarith
  also have "\<dots> \<le> of_int (2 ^ Suc j)" using b(2) by (simp only: of_int_le_iff; simp)
  finally have hi: "y < 2 ^ Suc j" by simp
  have x: "x = 1 / y" by (simp add: y_def)
  have ypos: "0 < y" using y1 by simp
  have xlo: "1 / 2 ^ Suc j < x"
    unfolding x using hi ypos by (simp add: field_simps)
  have xhi: "x \<le> 1 / 2 ^ j"
    unfolding x using lo ypos by (simp add: field_simps)
  have p1: "2 powi (- int (Suc j)) = 1 / (2::rat) ^ Suc j"
    by (simp only: power_int_minus_divide power_int_of_nat)
  have p2: "2 powi (- int j) = 1 / (2::rat) ^ j"
    by (simp only: power_int_minus_divide power_int_of_nat)
  show ?thesis
  proof (cases "x * 2 ^ j = 1")
    case True
    then have fl: "floorLog2 x = - int j"
      using False k by (simp add: floorLog2_def y_def [symmetric] n_def [symmetric] Let_def)
    from True have xe: "x = 1 / 2 ^ j" by (simp add: field_simps)
    have "(2::rat) powi (- int j + 1) = 2 powi (- int j) * 2 powi 1"
      by (rule power_int_add) simp
    then have "2 powi (- int j + 1) = 2 * (1 / (2::rat) ^ j)"
      by (simp only: p2) simp
    then show ?thesis unfolding fl p2 using xe by (simp add: divide_strict_right_mono)
  next
    case ne: False
    then have fl: "floorLog2 x = - int (Suc j)"
      using False k by (simp add: floorLog2_def y_def [symmetric] n_def [symmetric] Let_def)
    from ne xhi have "x < 1 / 2 ^ j" by (auto simp: field_simps)
    moreover have "- int (Suc j) + 1 = - int j" by simp
    ultimately show ?thesis unfolding fl using xlo by (simp only: p1 p2) simp
  qed
qed

lemma powi_two_mono: "m \<le> n \<Longrightarrow> (2::rat) powi m \<le> 2 powi n"
  by (rule power_int_increasing) simp_all

lemma powi_two_split: "(2::rat) powi (m + n) = 2 powi m * 2 powi n"
  by (rule power_int_add) simp

lemma roundMag_bounds:
  assumes "0 < a"
  shows "0 \<le> roundMag a" and "roundMag a \<le> 2 powi (max (floorLog2 a) (- 1022) + 1)"
proof -
  define E where "E = max (floorLog2 a) (- 1022)"
  define u where "u = (2::rat) powi (E - 52)"
  have u: "0 < u" by (simp add: u_def)
  have ue: "ulpExp a = E - 52" by (simp add: ulpExp_def E_def)
  have s53: "2 powi 53 * u = 2 powi (E + 1)"
  proof -
    have "(2::rat) powi (53 + (E - 52)) = 2 powi 53 * 2 powi (E - 52)"
      by (rule powi_two_split)
    moreover have "53 + (E - 52) = E + 1" by simp
    ultimately show ?thesis by (simp only: u_def)
  qed
  have "of_int 0 \<le> a / u" using assms u by simp
  then have "0 \<le> roundHalfEven (a / u)" by (rule roundHalfEven_ge)
  then show "0 \<le> roundMag a"
    using u by (simp add: roundMag_def ue u_def [symmetric])
  have "a < 2 powi (floorLog2 a + 1)" using floorLog2_bounds [OF assms] by simp
  also have "\<dots> \<le> 2 powi (E + 1)" by (rule powi_two_mono) (simp add: E_def)
  also have "\<dots> = 2 powi 53 * u" by (simp only: s53)
  finally have "a / u < 2 ^ 53" using u by (simp add: field_simps)
  then have "a / u \<le> of_int (2 ^ 53)" by simp
  then have "roundHalfEven (a / u) \<le> 2 ^ 53" by (rule roundHalfEven_le)
  then have "(of_int (roundHalfEven (a / u)) :: rat) \<le> of_int (2 ^ 53)"
    by (simp only: of_int_le_iff)
  then have "of_int (roundHalfEven (a / u)) * u \<le> 2 ^ 53 * u"
    using u by (simp add: mult_right_mono)
  also have "\<dots> = 2 powi (E + 1)" using s53 by simp
  finally show "roundMag a \<le> 2 powi (max (floorLog2 a) (- 1022) + 1)"
    by (simp add: roundMag_def ue u_def [symmetric] E_def [symmetric])
qed

lemma bitlen_one [simp]: "bitlen 1 = 1"
  by (subst compute_bitlen) simp

lemma roundD_one: "roundD 1 = Fin 1"
  by (simp add: roundD_def roundMag_def ulpExp_def floorLog2_def roundHalfEven_def Let_def
      power_int_minus)

lemma roundD_unit:
  assumes "0 \<le> x" "x \<le> 1"
  obtains p where "roundD x = Fin p" "0 \<le> p" "p \<le> 1"
proof (cases "x = 0 \<or> x = 1")
  case True
  then show ?thesis using that [of x] by (auto simp: roundD_one) (simp add: roundD_def)
next
  case False
  with assms have x: "0 < x" "x < 1" by auto
  have e: "floorLog2 x < 0"
  proof (rule ccontr)
    assume "\<not> floorLog2 x < 0"
    then have "(2::rat) powi 0 \<le> 2 powi floorLog2 x" by (intro powi_two_mono) simp
    with floorLog2_bounds [OF x(1)] x(2) show False by simp
  qed
  have "roundMag x \<le> 2 powi (max (floorLog2 x) (- 1022) + 1)"
    by (rule roundMag_bounds [OF x(1)])
  also have "\<dots> \<le> 2 powi 0" using e by (intro powi_two_mono) simp
  finally have le: "roundMag x \<le> 1" by simp
  then have "\<not> 2 ^ 1024 \<le> roundMag x" by simp
  then have "roundD x = Fin (roundMag x)"
    using x by (simp add: roundD_def)
  then show ?thesis using that [of "roundMag x"] le roundMag_bounds(1) [OF x(1)] by simp
qed

lemma roundD_of_nat:
  assumes "n \<le> 2 ^ 53"
  shows "roundD (of_nat n) = Fin (of_nat n)"
proof (cases "n = 0")
  case True
  then show ?thesis by (simp add: roundD_def)
next
  case False
  define x :: rat where "x = of_nat n"
  define e where "e = floorLog2 x"
  from False have x: "1 \<le> x" by (simp add: x_def)
  then have xp: "0 < x" by simp
  note b = floorLog2_bounds [OF xp, folded e_def]
  have e0: "0 \<le> e"
  proof (rule ccontr)
    assume "\<not> 0 \<le> e"
    then have "(2::rat) powi (e + 1) \<le> 2 powi 0" by (intro powi_two_mono) simp
    with b x show False by simp
  qed
  have xle: "x \<le> 2 ^ 53"
    using assms unfolding x_def by (metis of_nat_le_iff of_nat_numeral of_nat_power)
  have e53: "e \<le> 53"
  proof (rule ccontr)
    assume "\<not> e \<le> 53"
    then have "(2::rat) powi 54 \<le> 2 powi e" by (intro powi_two_mono) simp
    with b xle show False by simp
  qed
  define k where "k = nat (53 - e)"
  have ek: "e = 53 - int k" using e53 by (simp add: k_def)
  have ue: "ulpExp x = 1 - int k" using e0 by (simp add: ulpExp_def e_def [symmetric] ek)
  have rm: "roundMag x = x"
  proof (cases k)
    case 0
    then have "(2::rat) powi 53 \<le> x" using b ek by simp
    with xle have x53: "x = 2 ^ 53" by simp
    have u1: "(2::rat) powi ulpExp x = 2" using 0 by (simp add: ue)
    have "roundHalfEven (x / 2) = 2 ^ 52"
      unfolding x53 using roundHalfEven_of_int [of "2 ^ 52"] by simp
    then have "of_int (roundHalfEven (x / 2)) * 2 = x" by (simp add: x53)
    then show ?thesis by (simp only: roundMag_def u1)
  next
    case (Suc j)
    then have u: "(2::rat) powi ulpExp x = 1 / 2 ^ j"
      by (simp add: ue power_int_minus_divide)
    have "x / (1 / 2 ^ j) = of_int (int n * 2 ^ j)" by (simp add: x_def)
    then have "roundHalfEven (x / (1 / 2 ^ j)) = int n * 2 ^ j"
      by (simp only: roundHalfEven_of_int)
    then have "of_int (roundHalfEven (x / (1 / 2 ^ j))) * (1 / 2 ^ j) = x"
      by (simp add: x_def)
    then show ?thesis by (simp only: roundMag_def u)
  qed
  have "x < 2 ^ 1024" using xle by (rule le_less_trans) simp
  then show ?thesis
    using xp rm by (simp add: roundD_def x_def [symmetric])
qed

lemma powi_two_less_iff: "(2::rat) powi m < 2 powi n \<longleftrightarrow> m < n"
proof
  assume a: "(2::rat) powi m < 2 powi n"
  show "m < n"
  proof (rule ccontr)
    assume "\<not> m < n"
    then have "(2::rat) powi n \<le> 2 powi m" by (intro powi_two_mono) simp
    with a show False by simp
  qed
next
  assume "m < n"
  then show "(2::rat) powi m < 2 powi n" by (intro power_int_strict_increasing) simp_all
qed

lemma floorLog2_mono:
  assumes "0 < x" "x \<le> y"
  shows "floorLog2 x \<le> floorLog2 y"
proof -
  from assms have y: "0 < y" by simp
  have "2 powi floorLog2 x \<le> x" using floorLog2_bounds [OF assms(1)] by simp
  also have "\<dots> \<le> y" by (rule assms(2))
  also have "\<dots> < 2 powi (floorLog2 y + 1)" using floorLog2_bounds [OF y] by simp
  finally have "floorLog2 x < floorLog2 y + 1" by (simp only: powi_two_less_iff)
  then show ?thesis by simp
qed

lemma roundHalfEven_mono:
  assumes "x \<le> y"
  shows "roundHalfEven x \<le> roundHalfEven y"
proof (cases "\<lfloor>x\<rfloor> = \<lfloor>y\<rfloor>")
  case True
  with assms have "x - of_int \<lfloor>x\<rfloor> \<le> y - of_int \<lfloor>y\<rfloor>" by simp
  with True show ?thesis by (auto simp: roundHalfEven_def Let_def)
next
  case False
  with assms have "\<lfloor>x\<rfloor> < \<lfloor>y\<rfloor>" using floor_mono [OF assms] by linarith
  moreover have "roundHalfEven x \<le> \<lfloor>x\<rfloor> + 1" by (simp add: roundHalfEven_def Let_def)
  moreover have "\<lfloor>y\<rfloor> \<le> roundHalfEven y" by (simp add: roundHalfEven_def Let_def)
  ultimately show ?thesis by linarith
qed

lemma roundMag_lower:
  assumes "0 < y" "- 1022 \<le> floorLog2 y"
  shows "2 powi floorLog2 y \<le> roundMag y"
proof -
  define f where "f = floorLog2 y"
  define u where "u = (2::rat) powi (f - 52)"
  have u: "0 < u" by (simp add: u_def)
  have ue: "ulpExp y = f - 52" using assms(2) by (simp add: ulpExp_def f_def)
  have s52: "2 powi 52 * u = 2 powi f"
  proof -
    have "(2::rat) powi (52 + (f - 52)) = 2 powi 52 * 2 powi (f - 52)"
      by (rule powi_two_split)
    then show ?thesis by (simp add: u_def)
  qed
  have "2 powi f \<le> y" using floorLog2_bounds [OF assms(1)] by (simp add: f_def)
  then have "2 powi 52 * u \<le> y" by (simp only: s52)
  then have "of_int (2 ^ 52) \<le> y / u" using u by (simp add: field_simps)
  then have "2 ^ 52 \<le> roundHalfEven (y / u)" by (rule roundHalfEven_ge)
  then have "(of_int (2 ^ 52) :: rat) \<le> of_int (roundHalfEven (y / u))"
    by (simp only: of_int_le_iff)
  then have "2 ^ 52 * u \<le> of_int (roundHalfEven (y / u)) * u"
    using u by (simp add: mult_right_mono)
  moreover have "2 ^ 52 * u = 2 powi f" using s52 by simp
  ultimately show ?thesis
    by (simp add: roundMag_def ue u_def [symmetric] f_def [symmetric])
qed

lemma roundMag_mono:
  assumes "0 < x" "x \<le> y"
  shows "roundMag x \<le> roundMag y"
proof -
  from assms have y: "0 < y" by simp
  define Ex where "Ex = max (floorLog2 x) (- 1022)"
  define Ey where "Ey = max (floorLog2 y) (- 1022)"
  have le: "Ex \<le> Ey" using floorLog2_mono [OF assms] by (simp add: Ex_def Ey_def)
  show ?thesis
  proof (cases "Ex = Ey")
    case True
    then have ue: "ulpExp x = ulpExp y" by (simp add: ulpExp_def Ex_def Ey_def)
    have "x / 2 powi ulpExp y \<le> y / 2 powi ulpExp y"
      using assms(2) by (simp add: divide_right_mono)
    then have "roundHalfEven (x / 2 powi ulpExp y) \<le> roundHalfEven (y / 2 powi ulpExp y)"
      by (rule roundHalfEven_mono)
    then have "(of_int (roundHalfEven (x / 2 powi ulpExp y)) :: rat)
                 \<le> of_int (roundHalfEven (y / 2 powi ulpExp y))"
      by (simp only: of_int_le_iff)
    then show ?thesis by (simp add: roundMag_def ue mult_right_mono)
  next
    case False
    with le have lt: "Ex < Ey" by simp
    then have fy: "Ey = floorLog2 y" "- 1022 \<le> floorLog2 y"
      by (auto simp: Ex_def Ey_def)
    have "roundMag x \<le> 2 powi (Ex + 1)"
      using roundMag_bounds(2) [OF assms(1)] by (simp add: Ex_def)
    also have "\<dots> \<le> 2 powi Ey" using lt by (intro powi_two_mono) simp
    also have "\<dots> \<le> roundMag y" unfolding fy(1) by (rule roundMag_lower [OF y fy(2)])
    finally show ?thesis .
  qed
qed


lemma roundD_zero [simp]: "roundD 0 = Fin 0"
  by (simp add: roundD_def)

lemma roundD_pos:
  assumes "0 < x"
  shows "roundD x = (if 2 ^ 1024 \<le> roundMag x then PosInf else Fin (roundMag x))"
  using assms by (simp add: roundD_def Let_def)

lemma roundD_nonneg_cases:
  assumes "0 \<le> x"
  obtains "roundD x = PosInf" | v where "roundD x = Fin v" "0 \<le> v"
proof (cases "x = 0")
  case True
  then show ?thesis using that(2) [of 0] by simp
next
  case False
  with assms have x: "0 < x" by simp
  show ?thesis
    using that roundMag_bounds(1) [OF x] by (cases "2 ^ 1024 \<le> roundMag x") (auto simp: roundD_pos [OF x])
qed

lemma roundD_above_double:
  assumes "isDouble a" "0 \<le> a" "a \<le> y" "roundD y = Fin w"
  shows "a \<le> w"
proof (cases "a = 0")
  case True
  from assms(2,3) have "0 \<le> y" by simp
  then show ?thesis using assms(4) True by (cases y rule: roundD_nonneg_cases) auto
next
  case False
  with assms have a: "0 < a" and y: "0 < y" by auto
  from assms(1) have "roundD a = Fin a" by (simp add: isDouble_def)
  then have ra: "roundMag a = a"
    using a by (simp add: roundD_pos split: if_splits)
  from assms(4) have "roundMag y = w"
    using y by (simp add: roundD_pos split: if_splits)
  with roundMag_mono [OF a assms(3)] ra show ?thesis by simp
qed

lemma jsAdd_above:
  assumes "0 \<le> s" "0 \<le> c" "isDouble c" "jsAdd (Fin s) (Fin c) = Fin w"
    and "isDouble a" "0 \<le> a" "a \<le> s"
  shows "a \<le> w" "c \<le> w"
proof -
  from assms(4) have r: "roundD (s + c) = Fin w" by simp
  show "a \<le> w" by (rule roundD_above_double [OF assms(5,6) _ r]) (use assms in simp)
  show "c \<le> w" by (rule roundD_above_double [OF assms(3,2) _ r]) (use assms in simp)
qed

lemma jsAdd_nonneg_cases:
  assumes "0 \<le> s" "0 \<le> c"
  obtains "jsAdd (Fin s) (Fin c) = PosInf" | w where "jsAdd (Fin s) (Fin c) = Fin w" "0 \<le> w"
proof -
  from assms have "0 \<le> s + c" by simp
  then show ?thesis by (cases "s + c" rule: roundD_nonneg_cases) (use that in auto)
qed

lemma total_cases:
  assumes nn: "0 \<le> a" "0 \<le> b" "0 \<le> c" "0 \<le> d"
    and db: "isDouble a" "isDouble b" "isDouble c" "isDouble d"
  obtains "jsAdd (jsAdd (jsAdd (Fin a) (Fin b)) (Fin c)) (Fin d) = PosInf"
  | t where "jsAdd (jsAdd (jsAdd (Fin a) (Fin b)) (Fin c)) (Fin d) = Fin t"
      "a \<le> t" "b \<le> t" "c \<le> t" "d \<le> t"
proof -
  consider "jsAdd (Fin a) (Fin b) = PosInf"
    | s1 where "jsAdd (Fin a) (Fin b) = Fin s1" "0 \<le> s1"
    by (rule jsAdd_nonneg_cases [OF nn(1,2)])
  then show ?thesis
  proof cases
  case 1
  then show ?thesis using that(1) by simp
next
  case (2 s1)
  have s1: "a \<le> s1" "b \<le> s1"
    using jsAdd_above [OF nn(1,2) db(2) 2(1) db(1) nn(1)] by simp_all
  consider "jsAdd (Fin s1) (Fin c) = PosInf"
    | s2 where "jsAdd (Fin s1) (Fin c) = Fin s2" "0 \<le> s2"
    by (rule jsAdd_nonneg_cases [OF 2(2) nn(3)])
  then show ?thesis
  proof cases
    case 1
    then show ?thesis using that(1) 2(1) by simp
  next
    case s2: (2 s2)
    have a2: "a \<le> s2" "c \<le> s2"
      using jsAdd_above [OF 2(2) nn(3) db(3) s2(1) db(1) nn(1) s1(1)] by simp_all
    have b2: "b \<le> s2"
      using jsAdd_above(1) [OF 2(2) nn(3) db(3) s2(1) db(2) nn(2) s1(2)] .
    consider "jsAdd (Fin s2) (Fin d) = PosInf"
      | t where "jsAdd (Fin s2) (Fin d) = Fin t" "0 \<le> t"
      by (rule jsAdd_nonneg_cases [OF s2(2) nn(4)])
    then show ?thesis
    proof cases
      case 1
      then show ?thesis using that(1) 2(1) s2(1) by simp
    next
      case t: (2 t)
      have "a \<le> t" "d \<le> t"
        using jsAdd_above [OF s2(2) nn(4) db(4) t(1) db(1) nn(1) a2(1)] by simp_all
      moreover have "b \<le> t"
        using jsAdd_above(1) [OF s2(2) nn(4) db(4) t(1) db(2) nn(2) b2] .
      moreover have "c \<le> t"
        using jsAdd_above(1) [OF s2(2) nn(4) db(4) t(1) db(3) nn(3) a2(2)] .
      ultimately show ?thesis using that(2) [of t] 2(1) s2(1) t(1) by simp
    qed
  qed
qed
qed

text \<open>
  The error of a rounding. A double is a whole multiple of \<open>2^-1074\<close>, so a sum of
  two doubles below \<open>2^-1022\<close> is a double; everywhere else rounding moves a value by at
  most \<open>2^-53\<close> of itself, and a value between 0 and 1 by at most \<open>2^-54\<close>.
\<close>

lemma roundHalfEven_error: "\<bar>of_int (roundHalfEven x) - x\<bar> \<le> 1 / 2"
proof -
  have "of_int \<lfloor>x\<rfloor> \<le> x" "x < of_int \<lfloor>x\<rfloor> + 1" by linarith+
  then show ?thesis
    by (auto simp: roundHalfEven_def Let_def abs_le_iff)
qed

lemma roundMag_error:
  assumes "0 < a"
  shows "\<bar>roundMag a - a\<bar> \<le> 2 powi ulpExp a / 2"
proof -
  define P where "P = (2::rat) powi ulpExp a"
  have P: "0 < P" by (simp add: P_def)
  have "roundMag a - a = (of_int (roundHalfEven (a / P)) - a / P) * P"
    using P by (simp add: roundMag_def P_def algebra_simps)
  then have "\<bar>roundMag a - a\<bar> = \<bar>of_int (roundHalfEven (a / P)) - a / P\<bar> * P"
    using P by (simp add: abs_mult)
  also have "\<dots> \<le> 1 / 2 * P"
    using roundHalfEven_error [of "a / P"] P by (intro mult_right_mono) simp_all
  finally show ?thesis by (simp add: P_def)
qed

lemma roundMag_rel_error:
  assumes "0 < a" "- 1022 \<le> floorLog2 a"
  shows "\<bar>roundMag a - a\<bar> \<le> a / 2 ^ 53"
proof -
  have "ulpExp a = floorLog2 a + (- 52)"
    using assms(2) by (simp add: ulpExp_def)
  then have "(2::rat) powi ulpExp a = 2 powi floorLog2 a * 2 powi (- 52)"
    by (simp only: powi_two_split)
  also have "\<dots> \<le> a * 2 powi (- 52)"
    using floorLog2_bounds [OF assms(1)] by (intro mult_right_mono) simp_all
  finally have "(2::rat) powi ulpExp a / 2 \<le> a * 2 powi (- 52) / 2" by simp
  also have "\<dots> = a / 2 ^ 53" by (simp add: power_int_minus field_simps)
  finally show ?thesis using roundMag_error [OF assms(1)] by linarith
qed

lemma roundMag_grid_exact:
  assumes "0 < a" "floorLog2 a < - 1022" "a = of_int k * 2 powi (- 1074)"
  shows "roundMag a = a"
proof -
  have u: "ulpExp a = - 1074" using assms(2) by (simp add: ulpExp_def)
  have "a / 2 powi (- 1074) = of_int k"
    unfolding assms(3) by simp
  then show ?thesis
    unfolding roundMag_def u using assms(3) by simp
qed

lemma roundMag_grid_error:
  assumes "0 < a" "a = of_int k * 2 powi (- 1074)"
  shows "\<bar>roundMag a - a\<bar> \<le> a / 2 ^ 53"
proof (cases "- 1022 \<le> floorLog2 a")
  case True
  then show ?thesis by (rule roundMag_rel_error [OF assms(1)])
next
  case False
  then have "floorLog2 a < - 1022" by simp
  then have "roundMag a = a" by (rule roundMag_grid_exact [OF assms(1) _ assms(2)])
  with assms(1) show ?thesis by simp
qed

lemma roundMag_on_grid:
  "\<exists>k. roundMag a = of_int k * 2 powi (- 1074)"
proof -
  define n where "n = nat (ulpExp a + 1074)"
  have "- 1074 \<le> ulpExp a" by (simp add: ulpExp_def)
  then have "ulpExp a = int n + (- 1074)" by (simp add: n_def)
  then have "(2::rat) powi ulpExp a = 2 powi int n * 2 powi (- 1074)"
    by (simp only: powi_two_split)
  then have "(2::rat) powi ulpExp a = of_int (2 ^ n) * 2 powi (- 1074)"
    by simp
  then have "roundMag a = of_int (roundHalfEven (a / 2 powi ulpExp a) * 2 ^ n) * 2 powi (- 1074)"
    by (simp add: roundMag_def)
  then show ?thesis ..
qed

lemma roundD_on_grid:
  assumes "roundD x = Fin v"
  shows "\<exists>k. v = of_int k * 2 powi (- 1074)"
proof -
  obtain k where k: "roundMag \<bar>x\<bar> = of_int k * 2 powi (- 1074)"
    using roundMag_on_grid by blast
  consider "x = 0" | "0 < x" | "x < 0" by linarith
  then show ?thesis
  proof cases
    case 1
    with assms have "v = of_int 0 * 2 powi (- 1074)" by simp
    then show ?thesis ..
  next
    case 2
    with assms have "v = roundMag \<bar>x\<bar>"
      by (simp add: roundD_def Let_def split: if_splits)
    with k show ?thesis by blast
  next
    case 3
    with assms have "v = - roundMag \<bar>x\<bar>"
      by (simp add: roundD_def Let_def split: if_splits)
    with k have "v = of_int (- k) * 2 powi (- 1074)" by simp
    then show ?thesis ..
  qed
qed

lemma isDouble_on_grid: "isDouble a \<Longrightarrow> \<exists>k. a = of_int k * 2 powi (- 1074)"
  unfolding isDouble_def by (rule roundD_on_grid)

lemma jsAdd_error:
  assumes "0 \<le> x" "0 \<le> y"
    and "\<exists>k. x = of_int k * 2 powi (- 1074)" "\<exists>k. y = of_int k * 2 powi (- 1074)"
    and "jsAdd (Fin x) (Fin y) = Fin w"
  shows "\<bar>w - (x + y)\<bar> \<le> (x + y) / 2 ^ 53" and "\<exists>k. w = of_int k * 2 powi (- 1074)"
    and "0 \<le> w"
proof -
  from assms(5) have r: "roundD (x + y) = Fin w" by simp
  then show "\<exists>k. w = of_int k * 2 powi (- 1074)" by (rule roundD_on_grid)
  from assms(3,4) obtain i j where "x = of_int i * 2 powi (- 1074)" "y = of_int j * 2 powi (- 1074)"
    by blast
  then have g: "x + y = of_int (i + j) * 2 powi (- 1074)"
    by (simp add: algebra_simps)
  show "\<bar>w - (x + y)\<bar> \<le> (x + y) / 2 ^ 53" "0 \<le> w"
  proof -
    consider "x + y = 0" | "0 < x + y" using assms(1,2) by linarith
    then have "\<bar>w - (x + y)\<bar> \<le> (x + y) / 2 ^ 53 \<and> 0 \<le> w"
    proof cases
      case 1
      with r show ?thesis by simp
    next
      case 2
      with r have w: "w = roundMag (x + y)"
        by (simp add: roundD_pos split: if_splits)
      from roundMag_grid_error [OF 2 g] roundMag_bounds(1) [OF 2] show ?thesis
        by (simp add: w)
    qed
    then show "\<bar>w - (x + y)\<bar> \<le> (x + y) / 2 ^ 53" "0 \<le> w" by simp_all
  qed
qed

lemma rel_step:
  fixes s x y w :: rat
  assumes "\<bar>w - (x + y)\<bar> \<le> (x + y) / 2 ^ 53"
  shows "(x + y) * (1 - 1 / 2 ^ 53) \<le> w" "w \<le> (x + y) * (1 + 1 / 2 ^ 53)"
proof -
  from assms have "w - (x + y) \<le> (x + y) / 2 ^ 53" "- (w - (x + y)) \<le> (x + y) / 2 ^ 53"
    by (simp_all only: abs_le_iff)
  then show "(x + y) * (1 - 1 / 2 ^ 53) \<le> w" "w \<le> (x + y) * (1 + 1 / 2 ^ 53)"
    by (simp_all add: algebra_simps)
qed

lemma sum4_chain:
  fixes a b c d s1 s2 t :: rat
  assumes nn: "0 \<le> a" "0 \<le> b" "0 \<le> c" "0 \<le> d"
    and e1: "\<bar>s1 - (a + b)\<bar> \<le> (a + b) / 2 ^ 53"
    and e2: "\<bar>s2 - (s1 + c)\<bar> \<le> (s1 + c) / 2 ^ 53"
    and e3: "\<bar>t - (s2 + d)\<bar> \<le> (s2 + d) / 2 ^ 53"
  shows "(1 - 3 / 2 ^ 53) * (a + b + c + d) \<le> t" and "t \<le> (1 + 4 / 2 ^ 53) * (a + b + c + d)"
proof -
  note b1 = rel_step [OF e1] and b2 = rel_step [OF e2] and b3 = rel_step [OF e3]
  have l2: "(a + b + c) * (1 - 2 / 2 ^ 53) \<le> s2"
    using b1(1) b2(1) nn by (simp add: algebra_simps)
  have h2: "s2 \<le> (a + b + c) * (1 + 5 / 2 ^ 54)"
    using b1(2) b2(2) nn by (simp add: algebra_simps)
  show "(1 - 3 / 2 ^ 53) * (a + b + c + d) \<le> t"
    using l2 b3(1) nn by (simp add: algebra_simps)
  show "t \<le> (1 + 4 / 2 ^ 53) * (a + b + c + d)"
    using h2 b3(2) nn by (simp add: algebra_simps)
qed


lemma near_one:
  fixes p1 p2 p3 p4 q1 q2 q3 q4 :: rat
  assumes p: "\<bar>p1 - q1\<bar> \<le> 1 / 2 ^ 54" "\<bar>p2 - q2\<bar> \<le> 1 / 2 ^ 54"
      "\<bar>p3 - q3\<bar> \<le> 1 / 2 ^ 54" "\<bar>p4 - q4\<bar> \<le> 1 / 2 ^ 54"
    and q: "q1 + q2 + q3 + q4 \<le> 1 + 4 / 2 ^ 53" "1 - 4 / 2 ^ 53 \<le> q1 + q2 + q3 + q4"
  shows "\<bar>p1 + p2 + p3 + p4 - 1\<bar> \<le> 1 / 2 ^ 50"
proof -
  from p have
    "p1 - q1 \<le> 1 / 2 ^ 54" "- (p1 - q1) \<le> 1 / 2 ^ 54"
    "p2 - q2 \<le> 1 / 2 ^ 54" "- (p2 - q2) \<le> 1 / 2 ^ 54"
    "p3 - q3 \<le> 1 / 2 ^ 54" "- (p3 - q3) \<le> 1 / 2 ^ 54"
    "p4 - q4 \<le> 1 / 2 ^ 54" "- (p4 - q4) \<le> 1 / 2 ^ 54"
    by (simp_all only: abs_le_iff)
  with q have "p1 + p2 + p3 + p4 - 1 \<le> 1 / 2 ^ 50" "- (p1 + p2 + p3 + p4 - 1) \<le> 1 / 2 ^ 50"
    by simp_all
  then show ?thesis by (simp only: abs_le_iff)
qed

lemma shares_tolerance:
  fixes a b c d t p1 p2 p3 p4 :: rat
  assumes t: "0 < t"
    and lo: "(1 - 3 / 2 ^ 53) * (a + b + c + d) \<le> t"
    and hi: "t \<le> (1 + 4 / 2 ^ 53) * (a + b + c + d)"
    and p: "\<bar>p1 - a / t\<bar> \<le> 1 / 2 ^ 54" "\<bar>p2 - b / t\<bar> \<le> 1 / 2 ^ 54"
      "\<bar>p3 - c / t\<bar> \<le> 1 / 2 ^ 54" "\<bar>p4 - d / t\<bar> \<le> 1 / 2 ^ 54"
  shows "\<bar>p1 + p2 + p3 + p4 - 1\<bar> \<le> 1 / 2 ^ 50"
proof -
  define S where "S = a + b + c + d"
  have s: "a / t + b / t + c / t + d / t = S / t"
    by (simp add: S_def add_divide_distrib)
  from lo hi have "S \<le> (1 + 4 / 2 ^ 53) * t" "(1 - 4 / 2 ^ 53) * t \<le> S"
    unfolding S_def [symmetric] by (simp_all add: algebra_simps)
  then have "S / t \<le> 1 + 4 / 2 ^ 53" "1 - 4 / 2 ^ 53 \<le> S / t"
    using t by (simp_all add: pos_divide_le_eq pos_le_divide_eq)
  then have "a / t + b / t + c / t + d / t \<le> 1 + 4 / 2 ^ 53"
    "1 - 4 / 2 ^ 53 \<le> a / t + b / t + c / t + d / t"
    by (simp_all only: s)
  with p show ?thesis by (rule near_one)
qed

lemma sum4_bounds:
  assumes nn: "0 \<le> a" "0 \<le> b" "0 \<le> c" "0 \<le> d"
    and gr: "\<exists>k. a = of_int k * 2 powi (- 1074)" "\<exists>k. b = of_int k * 2 powi (- 1074)"
      "\<exists>k. c = of_int k * 2 powi (- 1074)" "\<exists>k. d = of_int k * 2 powi (- 1074)"
    and t: "jsAdd (jsAdd (jsAdd (Fin a) (Fin b)) (Fin c)) (Fin d) = Fin t"
  shows "(1 - 3 / 2 ^ 53) * (a + b + c + d) \<le> t" and "t \<le> (1 + 4 / 2 ^ 53) * (a + b + c + d)"
proof -
  obtain s1 where s1: "jsAdd (Fin a) (Fin b) = Fin s1"
    using t by (cases "jsAdd (Fin a) (Fin b)") simp_all
  note e1 = jsAdd_error [OF nn(1,2) gr(1,2) s1]
  obtain s2 where s2: "jsAdd (Fin s1) (Fin c) = Fin s2"
    using t unfolding s1 by (cases "jsAdd (Fin s1) (Fin c)") simp_all
  note e2 = jsAdd_error [OF e1(3) nn(3) e1(2) gr(3) s2]
  from t have s3: "jsAdd (Fin s2) (Fin d) = Fin t"
    by (simp only: s1 s2)
  note e3 = jsAdd_error [OF e2(3) nn(4) e2(2) gr(4) s3]
  show "(1 - 3 / 2 ^ 53) * (a + b + c + d) \<le> t" and "t \<le> (1 + 4 / 2 ^ 53) * (a + b + c + d)"
    by (rule sum4_chain [OF nn e1(1) e2(1) e3(1)])+
qed

lemma roundD_unit_error:
  assumes "0 \<le> x" "x \<le> 1"
  obtains p where "roundD x = Fin p" "0 \<le> p" "p \<le> 1" "\<bar>p - x\<bar> \<le> 1 / 2 ^ 54"
proof (cases "x = 0 \<or> x = 1")
  case True
  then show ?thesis using that [of x] by (auto simp: roundD_one)
next
  case False
  with assms have x: "0 < x" "x < 1" by auto
  have e: "floorLog2 x < 0"
  proof (rule ccontr)
    assume "\<not> floorLog2 x < 0"
    then have "(2::rat) powi 0 \<le> 2 powi floorLog2 x" by (intro powi_two_mono) simp
    with floorLog2_bounds [OF x(1)] x(2) show False by simp
  qed
  obtain p where p: "roundD x = Fin p" "0 \<le> p" "p \<le> 1"
    using assms by (rule roundD_unit)
  with x have pm: "p = roundMag x" by (simp add: roundD_pos split: if_splits)
  have "ulpExp x \<le> - 53" using e by (simp add: ulpExp_def)
  then have "(2::rat) powi ulpExp x \<le> 2 powi (- 53)" by (rule powi_two_mono)
  then have "(2::rat) powi ulpExp x / 2 \<le> 1 / 2 ^ 54"
    by (simp add: power_int_minus field_simps)
  with roundMag_error [OF x(1)] have "\<bar>p - x\<bar> \<le> 1 / 2 ^ 54"
    unfolding pm by linarith
  with p show ?thesis by (rule that)
qed


lemma roundD_small:
  assumes "0 \<le> y" "y \<le> 8"
  shows "\<exists>w. roundD y = Fin w"
proof (cases "y = 0")
  case True
  then show ?thesis by simp
next
  case False
  with assms have y: "0 < y" by simp
  have e: "floorLog2 y \<le> 3"
  proof (rule ccontr)
    assume "\<not> floorLog2 y \<le> 3"
    then have "(2::rat) powi 4 \<le> 2 powi floorLog2 y" by (intro powi_two_mono) simp
    with floorLog2_bounds [OF y] assms(2) show False by simp
  qed
  have "roundMag y \<le> 2 powi (max (floorLog2 y) (- 1022) + 1)"
    by (rule roundMag_bounds [OF y])
  also have "\<dots> \<le> 2 powi 4" using e by (intro powi_two_mono) simp
  finally have "roundMag y \<le> 16" by simp
  then have "\<not> 2 ^ 1024 \<le> roundMag y" by simp
  then show ?thesis using y by (simp add: roundD_pos)
qed

lemma float_sum_near_one:
  fixes P s :: rat
  assumes "(1 - 3 / 2 ^ 53) * P \<le> s" "s \<le> (1 + 4 / 2 ^ 53) * P" "\<bar>P - 1\<bar> \<le> 1 / 2 ^ 50"
  shows "\<bar>s - 1\<bar> \<le> 1 / 2 ^ 49"
proof -
  from assms(3) have "P - 1 \<le> 1 / 2 ^ 50" "- (P - 1) \<le> 1 / 2 ^ 50"
    by (simp_all only: abs_le_iff)
  with assms(1,2) have "s - 1 \<le> 1 / 2 ^ 49" "- (s - 1) \<le> 1 / 2 ^ 49"
    by (simp_all add: algebra_simps)
  then show ?thesis by (simp only: abs_le_iff)
qed

lemma percentages_float_sum:
  assumes u: "0 \<le> p1" "p1 \<le> 1" "0 \<le> p2" "p2 \<le> 1" "0 \<le> p3" "p3 \<le> 1" "0 \<le> p4" "p4 \<le> 1"
    and gr: "\<exists>k. p1 = of_int k * 2 powi (- 1074)" "\<exists>k. p2 = of_int k * 2 powi (- 1074)"
      "\<exists>k. p3 = of_int k * 2 powi (- 1074)" "\<exists>k. p4 = of_int k * 2 powi (- 1074)"
    and s: "\<bar>p1 + p2 + p3 + p4 - 1\<bar> \<le> 1 / 2 ^ 50"
  shows "\<exists>w. jsAdd (jsAdd (jsAdd (Fin p1) (Fin p2)) (Fin p3)) (Fin p4) = Fin w \<and>
           \<bar>w - 1\<bar> \<le> 1 / 2 ^ 49"
proof -
  from u have "0 \<le> p1 + p2" "p1 + p2 \<le> 8" by simp_all
  then obtain s1 where s1: "jsAdd (Fin p1) (Fin p2) = Fin s1"
    using roundD_small by auto
  note e1 = jsAdd_error [OF u(1,3) gr(1,2) s1]
  from e1(1) have "s1 - (p1 + p2) \<le> (p1 + p2) / 2 ^ 53"
    by (simp only: abs_le_iff)
  with u have b1: "s1 \<le> 3" by simp
  with e1(3) u have "0 \<le> s1 + p3" "s1 + p3 \<le> 8" by simp_all
  then obtain s2 where s2: "jsAdd (Fin s1) (Fin p3) = Fin s2"
    using roundD_small by auto
  note e2 = jsAdd_error [OF e1(3) u(5) e1(2) gr(3) s2]
  from e2(1) have "s2 - (s1 + p3) \<le> (s1 + p3) / 2 ^ 53"
    by (simp only: abs_le_iff)
  with u b1 have b2: "s2 \<le> 5" by simp
  with e2(3) u have "0 \<le> s2 + p4" "s2 + p4 \<le> 8" by simp_all
  then obtain w where w: "jsAdd (Fin s2) (Fin p4) = Fin w"
    using roundD_small by auto
  then have c: "jsAdd (jsAdd (jsAdd (Fin p1) (Fin p2)) (Fin p3)) (Fin p4) = Fin w"
    by (simp only: s1 s2)
  have "\<bar>w - 1\<bar> \<le> 1 / 2 ^ 49"
    by (rule float_sum_near_one [OF sum4_bounds [OF u(1,3,5,7) gr c] s])
  with c show ?thesis by blast
qed

section \<open>Batch resolution\<close>

lemma batchId_computeRecord:
  "batchId (computeRecord e r chars) =
     (case find (\<lambda>c. CharacterizationRecord.date c \<le> date r)
             (sortBy (\<lambda>a b. localeCompare e (CharacterizationRecord.date b)
                                           (CharacterizationRecord.date a))
                (filter (\<lambda>c. CharacterizationRecord.aviary c = aviary r) chars)) of
        Some c \<Rightarrow> CharacterizationRecord.batchId c
      | None \<Rightarrow> batchId r)"
  by (cases chars) (simp_all add: computeRecord_def Let_def EggRecord.defs sortBy_def)

lemma set_insertBy: "set (insertBy cmp x ys) = insert x (set ys)"
  by (induction ys) auto

lemma set_sortBy: "set (sortBy cmp xs) = set xs"
  by (induction xs) (simp_all add: sortBy_def set_insertBy)

lemma sorted_insertBy:
  assumes "\<And>a b. a \<in> insert x (set ys) \<Longrightarrow> b \<in> insert x (set ys) \<Longrightarrow>
             (cmp a b \<le> 0 \<longleftrightarrow> key b \<le> (key a :: 'k :: linorder))"
    and "sorted_wrt (\<lambda>a b. key b \<le> key a) ys"
  shows "sorted_wrt (\<lambda>a b. key b \<le> key a) (insertBy cmp x ys)"
  using assms
proof (induction ys)
  case Nil
  then show ?case by simp
next
  case (Cons y ys)
  show ?case
  proof (cases "cmp x y \<le> 0")
    case True
    then have "key y \<le> key x" using Cons.prems(1) [of x y] by simp
    with True Cons.prems(2) show ?thesis by (auto intro: order_trans)
  next
    case False
    then have xy: "key x \<le> key y" using Cons.prems(1) [of x y] by auto
    have "sorted_wrt (\<lambda>a b. key b \<le> key a) (insertBy cmp x ys)"
      using Cons.prems by (intro Cons.IH) auto
    with False xy Cons.prems(2) show ?thesis by (auto simp: set_insertBy)
  qed
qed

lemma sorted_sortBy:
  assumes "\<And>a b. a \<in> set xs \<Longrightarrow> b \<in> set xs \<Longrightarrow> (cmp a b \<le> 0 \<longleftrightarrow> key b \<le> (key a :: 'k :: linorder))"
  shows "sorted_wrt (\<lambda>a b. key b \<le> key a) (sortBy cmp xs)"
  using assms
proof (induction xs)
  case Nil
  then show ?case by (simp add: sortBy_def)
next
  case (Cons x xs)
  have "sorted_wrt (\<lambda>a b. key b \<le> key a) (insertBy cmp x (sortBy cmp xs))"
  proof (rule sorted_insertBy)
    show "sorted_wrt (\<lambda>a b. key b \<le> key a) (sortBy cmp xs)"
      using Cons.prems by (intro Cons.IH) auto
  qed (use Cons.prems in \<open>auto simp: set_sortBy\<close>)
  then show ?case by (simp add: sortBy_def)
qed

lemma find_sorted_desc:
  assumes "sorted_wrt (\<lambda>a b. key b \<le> (key a :: 'k :: linorder)) xs"
    and "c \<in> set xs" "key c \<le> d"
  obtains s where "find (\<lambda>a. key a \<le> d) xs = Some s" "s \<in> set xs" "key s \<le> d"
    "\<And>c'. c' \<in> set xs \<Longrightarrow> key c' \<le> d \<Longrightarrow> key c' \<le> key s"
  using assms
proof (induction xs arbitrary: thesis)
  case Nil
  then show ?case by simp
next
  case (Cons x xs)
  show ?case
  proof (cases "key x \<le> d")
    case True
    show ?thesis
      by (rule Cons.prems(1) [of x]) (use True Cons.prems(2) in auto)
  next
    case False
    with Cons.prems have c: "c \<in> set xs" by auto
    from Cons.prems(2) have srt: "sorted_wrt (\<lambda>a b. key b \<le> key a) xs" by simp
    obtain s where s: "find (\<lambda>a. key a \<le> d) xs = Some s" "s \<in> set xs" "key s \<le> d"
      "\<And>c'. c' \<in> set xs \<Longrightarrow> key c' \<le> d \<Longrightarrow> key c' \<le> key s"
      using Cons.IH [OF _ srt c Cons.prems(4)] by blast
    show ?thesis
      by (rule Cons.prems(1) [of s]) (use False s in auto)
  qed
qed

lemma find_qualifying:
  "find (\<lambda>c. CharacterizationRecord.date c \<le> date r)
     (sortBy cmp (filter (\<lambda>c. CharacterizationRecord.aviary c = aviary r) chars)) = None
   \<longleftrightarrow> qualifying r chars = []"
  by (auto simp: find_None_iff set_sortBy qualifying_def filter_empty_conv)

text \<open>
  C1. When at least one snapshot of the record's aviary is dated on or before the record,
  the batch of the computed record is the batch of a qualifying snapshot of the latest
  date, whatever batch the record itself stores. The collation of \<open>localeCompare\<close> is
  taken to order the dates of these snapshots as the code units do, which is the case for
  dates in the ISO form.
\<close>

theorem computeRecord_batch_latest_snapshot:
  assumes "\<forall>a \<in> set chars. \<forall>b \<in> set chars.
             CharacterizationRecord.aviary a = aviary r \<longrightarrow>
             CharacterizationRecord.aviary b = aviary r \<longrightarrow>
             (localeCompare e (CharacterizationRecord.date a) (CharacterizationRecord.date b) \<le> 0
                \<longleftrightarrow> CharacterizationRecord.date a \<le> CharacterizationRecord.date b)"
    and "qualifying r chars \<noteq> []"
  shows "\<exists>s \<in> set (qualifying r chars).
           (\<forall>c \<in> set (qualifying r chars).
              CharacterizationRecord.date c \<le> CharacterizationRecord.date s) \<and>
           batchId (computeRecord e r chars) = CharacterizationRecord.batchId s"
proof -
  define av where "av = filter (\<lambda>c. CharacterizationRecord.aviary c = aviary r) chars"
  define cmp :: "CharacterizationRecord \<Rightarrow> CharacterizationRecord \<Rightarrow> int"
    where "cmp = (\<lambda>a b. localeCompare e (CharacterizationRecord.date b)
                                              (CharacterizationRecord.date a))"
  from assms(2) obtain c where "c \<in> set (qualifying r chars)"
    by (cases "qualifying r chars") auto
  then have c: "c \<in> set av" "CharacterizationRecord.date c \<le> date r"
    by (simp_all add: qualifying_def av_def)
  have srt: "sorted_wrt (\<lambda>a b. CharacterizationRecord.date b \<le> CharacterizationRecord.date a)
               (sortBy cmp av)"
    by (rule sorted_sortBy) (use assms(1) in \<open>auto simp: cmp_def av_def\<close>)
  from c have c': "c \<in> set (sortBy cmp av)" by (simp add: set_sortBy)
  obtain s where s: "find (\<lambda>a. CharacterizationRecord.date a \<le> date r) (sortBy cmp av) = Some s"
    "s \<in> set (sortBy cmp av)" "CharacterizationRecord.date s \<le> date r"
    "\<And>c'. c' \<in> set (sortBy cmp av) \<Longrightarrow> CharacterizationRecord.date c' \<le> date r \<Longrightarrow>
       CharacterizationRecord.date c' \<le> CharacterizationRecord.date s"
    by (rule find_sorted_desc [OF srt c' c(2)]) blast
  have q: "set (qualifying r chars) =
             {x \<in> set (sortBy cmp av). CharacterizationRecord.date x \<le> date r}"
    by (auto simp: qualifying_def set_sortBy av_def)
  have "batchId (computeRecord e r chars) = CharacterizationRecord.batchId s"
    using s(1) by (simp add: batchId_computeRecord av_def cmp_def)
  with s(2-4) q show ?thesis by blast
qed

theorem computeRecord_batch_latest_snapshot_witness:
  "qualifying exampleRecord exampleSnapshots = exampleSnapshots \<and>
   batchId exampleRecord = Some (js ''L0'') \<and>
   batchId (computeRecord sampleEnv exampleRecord exampleSnapshots) = Some (js ''L2'')"
  using computeRecord_batch_latest_snapshot [of exampleSnapshots exampleRecord sampleEnv]
  by (auto simp: qualifying_def exampleRecord_def exampleSnapshots_def sampleEnv_def
      codeUnitCompare_def)

text \<open>
  C2, as the code has it. When no snapshot of the record's aviary is dated on or before
  the record, the batch of the computed record is the batch stored in the record; it is
  absent only when the record stores none.
\<close>

theorem computeRecord_batch_without_snapshot:
  assumes "qualifying r chars = []"
  shows "batchId (computeRecord e r chars) = batchId r"
  using assms find_qualifying [of r _ chars] by (simp add: batchId_computeRecord)

theorem computeRecord_batch_without_snapshot_witness:
  "qualifying earlyRecord exampleSnapshots = [] \<and>
   batchId (computeRecord sampleEnv earlyRecord exampleSnapshots) = batchId earlyRecord"
  using computeRecord_batch_without_snapshot [of earlyRecord exampleSnapshots sampleEnv]
  by (simp add: qualifying_def earlyRecord_def exampleRecord_def exampleSnapshots_def)

text \<open>
  The record of the specification's example that is dated before every snapshot keeps its
  stored batch \<open>L0\<close>; its batch is not absent.
\<close>

theorem computeRecord_batch_without_snapshot_counterexample:
  "qualifying earlyRecord exampleSnapshots = [] \<and>
   batchId (computeRecord sampleEnv earlyRecord exampleSnapshots) = Some (js ''L0'') \<and>
   batchId (computeRecord sampleEnv earlyRecord exampleSnapshots) \<noteq> None"
proof -
  have q: "qualifying earlyRecord exampleSnapshots = []"
    by (simp add: qualifying_def earlyRecord_def exampleRecord_def exampleSnapshots_def)
  have "find (\<lambda>c. CharacterizationRecord.date c \<le> date earlyRecord)
          (sortBy (\<lambda>a b. localeCompare sampleEnv (CharacterizationRecord.date b)
                                                 (CharacterizationRecord.date a))
             (filter (\<lambda>c. CharacterizationRecord.aviary c = aviary earlyRecord)
                exampleSnapshots)) = None"
    using q by (simp only: find_qualifying)
  then have "batchId (computeRecord sampleEnv earlyRecord exampleSnapshots) = batchId earlyRecord"
    by (simp add: batchId_computeRecord)
  with q show ?thesis by (simp add: earlyRecord_def exampleRecord_def)
qed

section \<open>Totals, percentages and laying rate\<close>

lemma bitlen_numeral_simps [simp]:
  "bitlen (numeral (Num.Bit0 k)) = bitlen (numeral k) + 1"
  "bitlen (numeral (Num.Bit1 k)) = bitlen (numeral k) + 1"
  by (subst compute_bitlen, simp)+

lemmas roundD_eval = roundD_def roundMag_def ulpExp_def floorLog2_def roundHalfEven_def Let_def
  power_int_minus

lemma example_shares:
  "roundD (1 / 6) = Fin (6004799503160661 / 36028797018963968)"
  "roundD (2 / 3) = Fin (6004799503160661 / 9007199254740992)"
  by (simp_all add: roundD_eval)

lemma example_sums:
  "roundD (6004799503160661 / 36028797018963968 + 6004799503160661 / 9007199254740992) =
     Fin (3752999689475413 / 4503599627370496)"
  "roundD (3752999689475413 / 4503599627370496 + 6004799503160661 / 36028797018963968) =
     Fin (9007199254740991 / 9007199254740992)"
  by (simp_all add: roundD_eval)

lemma jsAdd_nat:
  assumes "a + b \<le> 2 ^ 53"
  shows "jsAdd (Fin (of_nat a)) (Fin (of_nat b)) = Fin (of_nat (a + b))"
  using roundD_of_nat [OF assms] by simp

lemma computed_fields:
  "totalEggs (computeRecord e r chars) =
     jsAdd (jsAdd (jsAdd (clean r) (dirty r)) (cracked r))
       (case floorEggs r of None \<Rightarrow> Fin 0 | Some v \<Rightarrow> if truthyNum v then v else Fin 0)"
  "percClean (computeRecord e r chars) =
     (if jsGt (totalEggs (computeRecord e r chars)) (Fin 0)
      then Some (jsDiv (clean r) (totalEggs (computeRecord e r chars))) else None)"
  "percDirty (computeRecord e r chars) =
     (if jsGt (totalEggs (computeRecord e r chars)) (Fin 0)
      then Some (jsDiv (dirty r) (totalEggs (computeRecord e r chars))) else None)"
  "percCracked (computeRecord e r chars) =
     (if jsGt (totalEggs (computeRecord e r chars)) (Fin 0)
      then Some (jsDiv (cracked r) (totalEggs (computeRecord e r chars))) else None)"
  "percFloorEggs (computeRecord e r chars) =
     (if jsGt (totalEggs (computeRecord e r chars)) (Fin 0)
      then Some (jsDiv (case floorEggs r of None \<Rightarrow> Fin 0
                        | Some v \<Rightarrow> if truthyNum v then v else Fin 0)
                  (totalEggs (computeRecord e r chars))) else None)"
  "layingRate (computeRecord e r chars) =
     (if jsGt (birds r) (Fin 0)
      then Some (jsDiv (totalEggs (computeRecord e r chars)) (birds r)) else None)"
  by (simp_all add: computeRecord_def Let_def EggRecord.defs ComputedRecord.defs)

lemma share_unit:
  assumes "0 \<le> a" "a \<le> t" "0 < t"
  shows "inUnit (Some (roundD (a / t)))"
proof -
  have "0 \<le> a / t" "a / t \<le> 1" using assms by simp_all
  then obtain p where "roundD (a / t) = Fin p" "0 \<le> p" "p \<le> 1"
    by (rule roundD_unit)
  then show ?thesis by (simp add: inUnit_def)
qed

lemma isDouble_of_nat: "n \<le> 2 ^ 53 \<Longrightarrow> isDouble (of_nat n)"
  by (simp add: isDouble_def roundD_of_nat)

lemma big_doubles:
  "roundD (2 ^ 53) = Fin (2 ^ 53)"
  "roundD (2 ^ 53 + 1) = Fin (2 ^ 53)"
  "roundD (2 ^ 1023) = Fin (2 ^ 1023)"
  "roundD (2 ^ 1023 + 2 ^ 1023) = PosInf"
  by (simp_all add: roundD_eval)


lemma example_total:
  "totalEggs (computeRecord e exampleRecord chars) = Fin 6"
  by (simp add: computed_fields exampleRecord_def truthyNum_def roundD_eval)

lemma example_percentages:
  "percClean (computeRecord e exampleRecord chars) = Some (Fin 0)"
  "percDirty (computeRecord e exampleRecord chars) =
     Some (Fin (6004799503160661 / 36028797018963968))"
  "percCracked (computeRecord e exampleRecord chars) =
     Some (Fin (6004799503160661 / 9007199254740992))"
  "percFloorEggs (computeRecord e exampleRecord chars) =
     Some (Fin (6004799503160661 / 36028797018963968))"
  unfolding computed_fields(2-5) example_total
  by (simp_all add: exampleRecord_def truthyNum_def example_shares)

text \<open>
  C3, as the code computes it in floating point. For a record whose four egg counts are
  finite numbers that are not negative (an absent floor count is 0) and whose bird count
  is a number that is not negative:
  \<open>totalEggs\<close> is \<open>((clean + dirty) + cracked) + floor\<close> with each addition rounded to a
  double; it is the exact sum when the counts are whole numbers with a sum of at most
  \<open>2^53\<close>, when finite it differs from the exact sum by at most 4 parts in \<open>2^53\<close>, and
  it is 0 exactly when all four counts are. Each of the four percentages is \<open>null\<close>
  exactly when \<open>totalEggs\<close> is 0 and otherwise is the rounded quotient
  component / \<open>totalEggs\<close>, a value between 0 and 1. When \<open>totalEggs\<close> is finite and not 0,
  each percentage is within \<open>2^-54\<close> of the exact quotient, the four values returned sum
  to 1 within \<open>2^-50\<close>, and added as JavaScript adds them they give a finite number within
  \<open>2^-49\<close> of 1; when the additions overflow, \<open>totalEggs\<close> is \<open>Infinity\<close> and all four
  percentages are 0. \<open>layingRate\<close> is \<open>null\<close> exactly when the bird count is 0 and
  otherwise is the rounded quotient \<open>totalEggs\<close> / birds.
\<close>

theorem computeRecord_totals_and_percentages:
  assumes cl: "clean r = Fin a" "dirty r = Fin b" "cracked r = Fin c"
    and fe: "floorEggs r = Some (Fin d) \<or> (floorEggs r = None \<and> d = 0)"
    and bi: "jsLe (Fin 0) (birds r)"
    and nn: "0 \<le> a" "0 \<le> b" "0 \<le> c" "0 \<le> d"
    and db: "isDouble a" "isDouble b" "isDouble c" "isDouble d"
  shows
    "let cr = computeRecord e r chars; total = totalEggs cr in
       total = jsAdd (jsAdd (jsAdd (Fin a) (Fin b)) (Fin c)) (Fin d) \<and>
       (\<forall>a' b' c' d'. a = of_nat a' \<and> b = of_nat b' \<and> c = of_nat c' \<and> d = of_nat d' \<and>
          a' + b' + c' + d' \<le> 2 ^ 53 \<longrightarrow> total = Fin (of_nat (a' + b' + c' + d'))) \<and>
       (\<forall>t. total = Fin t \<longrightarrow>
          (1 - 3 / 2 ^ 53) * (a + b + c + d) \<le> t \<and> t \<le> (1 + 4 / 2 ^ 53) * (a + b + c + d)) \<and>
       (total = Fin 0 \<longleftrightarrow> a + b + c + d = 0) \<and>
       (percClean cr = None \<longleftrightarrow> total = Fin 0) \<and>
       (percDirty cr = None \<longleftrightarrow> total = Fin 0) \<and>
       (percCracked cr = None \<longleftrightarrow> total = Fin 0) \<and>
       (percFloorEggs cr = None \<longleftrightarrow> total = Fin 0) \<and>
       (total \<noteq> Fin 0 \<longrightarrow>
          percClean cr = Some (jsDiv (Fin a) total) \<and>
          percDirty cr = Some (jsDiv (Fin b) total) \<and>
          percCracked cr = Some (jsDiv (Fin c) total) \<and>
          percFloorEggs cr = Some (jsDiv (Fin d) total) \<and>
          inUnit (percClean cr) \<and> inUnit (percDirty cr) \<and>
          inUnit (percCracked cr) \<and> inUnit (percFloorEggs cr)) \<and>
       (\<forall>t. total = Fin t \<and> t \<noteq> 0 \<longrightarrow>
          (\<exists>p1 p2 p3 p4.
             percClean cr = Some (Fin p1) \<and> percDirty cr = Some (Fin p2) \<and>
             percCracked cr = Some (Fin p3) \<and> percFloorEggs cr = Some (Fin p4) \<and>
             \<bar>p1 - a / t\<bar> \<le> 1 / 2 ^ 54 \<and> \<bar>p2 - b / t\<bar> \<le> 1 / 2 ^ 54 \<and>
             \<bar>p3 - c / t\<bar> \<le> 1 / 2 ^ 54 \<and> \<bar>p4 - d / t\<bar> \<le> 1 / 2 ^ 54 \<and>
             \<bar>p1 + p2 + p3 + p4 - 1\<bar> \<le> 1 / 2 ^ 50 \<and>
             (\<exists>w. jsAdd (jsAdd (jsAdd (Fin p1) (Fin p2)) (Fin p3)) (Fin p4) = Fin w \<and>
                \<bar>w - 1\<bar> \<le> 1 / 2 ^ 49))) \<and>
       (total = PosInf \<longrightarrow>
          percClean cr = Some (Fin 0) \<and> percDirty cr = Some (Fin 0) \<and>
          percCracked cr = Some (Fin 0) \<and> percFloorEggs cr = Some (Fin 0)) \<and>
       (layingRate cr = None \<longleftrightarrow> birds r = Fin 0) \<and>
       (birds r \<noteq> Fin 0 \<longrightarrow> layingRate cr = Some (jsDiv total (birds r)))"
proof -
  define cr where "cr = computeRecord e r chars"
  define total where "total = totalEggs cr"
  have fl: "(case floorEggs r of None \<Rightarrow> Fin 0 | Some v \<Rightarrow> if truthyNum v then v else Fin 0)
              = Fin d"
    using fe by (auto simp: truthyNum_def)
  have tot: "total = jsAdd (jsAdd (jsAdd (Fin a) (Fin b)) (Fin c)) (Fin d)"
    unfolding total_def cr_def computed_fields(1) fl cl ..
  have exact: "total = Fin (of_nat (a' + b' + c' + d'))"
    if "a = of_nat a'" "b = of_nat b'" "c = of_nat c'" "d = of_nat d'"
      "a' + b' + c' + d' \<le> 2 ^ 53" for a' b' c' d' :: nat
  proof -
    from that(5) have "a' + b' \<le> 2 ^ 53" "a' + b' + c' \<le> 2 ^ 53" by simp_all
    then show ?thesis
      unfolding tot that(1-4) using that(5) by (simp only: jsAdd_nat)
  qed
  note gr = db [THEN isDouble_on_grid]
  have near: "(1 - 3 / 2 ^ 53) * (a + b + c + d) \<le> t \<and> t \<le> (1 + 4 / 2 ^ 53) * (a + b + c + d)"
    if "total = Fin t" for t
    using sum4_bounds [OF nn gr, of t] that tot by simp
  consider (inf) "total = PosInf"
    | (fin) t where "total = Fin t" "a \<le> t" "b \<le> t" "c \<le> t" "d \<le> t"
    unfolding tot by (rule total_cases [OF nn db])
  then have main:
    "(total = Fin 0 \<longleftrightarrow> a + b + c + d = 0) \<and>
     (jsGt total (Fin 0) \<longleftrightarrow> total \<noteq> Fin 0) \<and>
     (total \<noteq> Fin 0 \<longrightarrow> inUnit (Some (jsDiv (Fin a) total)) \<and> inUnit (Some (jsDiv (Fin b) total)) \<and>
        inUnit (Some (jsDiv (Fin c) total)) \<and> inUnit (Some (jsDiv (Fin d) total)))"
  proof cases
    case inf
    have "a + b + c + d \<noteq> 0"
    proof
      assume "a + b + c + d = 0"
      with nn have "a = 0" "b = 0" "c = 0" "d = 0" by linarith+
      with tot inf show False by simp
    qed
    with inf show ?thesis by (simp add: inUnit_def)
  next
    case (fin t)
    from fin(2) nn(1) have t0: "0 \<le> t" by simp
    have z: "t = 0 \<longleftrightarrow> a + b + c + d = 0"
    proof
      assume "t = 0"
      with fin(2-5) nn show "a + b + c + d = 0" by simp
    next
      assume "a + b + c + d = 0"
      with nn have "a = 0" "b = 0" "c = 0" "d = 0" by linarith+
      with tot fin(1) show "t = 0" by simp
    qed
    have u: "inUnit (Some (jsDiv (Fin x) total))" if "0 \<le> x" "x \<le> t" "t \<noteq> 0" for x
      using share_unit [OF that(1,2)] that(3) t0 by (simp add: fin(1))
    from z t0 u fin(2-5) nn show ?thesis by (auto simp: fin(1))
  qed
  have pc: "percClean cr = (if total \<noteq> Fin 0 then Some (jsDiv (Fin a) total) else None)"
    using main unfolding total_def cr_def computed_fields(2) by (simp add: cl(1))
  have pd: "percDirty cr = (if total \<noteq> Fin 0 then Some (jsDiv (Fin b) total) else None)"
    using main unfolding total_def cr_def computed_fields(3) by (simp add: cl(2))
  have pk: "percCracked cr = (if total \<noteq> Fin 0 then Some (jsDiv (Fin c) total) else None)"
    using main unfolding total_def cr_def computed_fields(4) by (simp add: cl(3))
  have pf: "percFloorEggs cr = (if total \<noteq> Fin 0 then Some (jsDiv (Fin d) total) else None)"
    using main unfolding total_def cr_def computed_fields(5) fl by simp
  have "jsGt (birds r) (Fin 0) \<longleftrightarrow> birds r \<noteq> Fin 0"
    using bi by (cases "birds r") auto
  then have lr: "layingRate cr =
      (if birds r \<noteq> Fin 0 then Some (jsDiv total (birds r)) else None)"
    unfolding total_def cr_def computed_fields(6) by simp
  have ov: "percClean cr = Some (Fin 0) \<and> percDirty cr = Some (Fin 0) \<and>
          percCracked cr = Some (Fin 0) \<and> percFloorEggs cr = Some (Fin 0)" if "total = PosInf"
    using that by (simp add: pc pd pk pf)
  have tol: "\<exists>p1 p2 p3 p4.
             percClean cr = Some (Fin p1) \<and> percDirty cr = Some (Fin p2) \<and>
             percCracked cr = Some (Fin p3) \<and> percFloorEggs cr = Some (Fin p4) \<and>
             \<bar>p1 - a / t\<bar> \<le> 1 / 2 ^ 54 \<and> \<bar>p2 - b / t\<bar> \<le> 1 / 2 ^ 54 \<and>
             \<bar>p3 - c / t\<bar> \<le> 1 / 2 ^ 54 \<and> \<bar>p4 - d / t\<bar> \<le> 1 / 2 ^ 54 \<and>
             \<bar>p1 + p2 + p3 + p4 - 1\<bar> \<le> 1 / 2 ^ 50 \<and>
             (\<exists>w. jsAdd (jsAdd (jsAdd (Fin p1) (Fin p2)) (Fin p3)) (Fin p4) = Fin w \<and>
                \<bar>w - 1\<bar> \<le> 1 / 2 ^ 49)"
    if t: "total = Fin t" "t \<noteq> 0" for t
  proof -
    have "a \<le> t \<and> b \<le> t \<and> c \<le> t \<and> d \<le> t"
    proof (rule total_cases [OF nn db])
      assume "jsAdd (jsAdd (jsAdd (Fin a) (Fin b)) (Fin c)) (Fin d) = PosInf"
      with tot t(1) show ?thesis by simp
    next
      fix t'
      assume "jsAdd (jsAdd (jsAdd (Fin a) (Fin b)) (Fin c)) (Fin d) = Fin t'"
        "a \<le> t'" "b \<le> t'" "c \<le> t'" "d \<le> t'"
      with tot t(1) show ?thesis by simp
    qed
    then have le: "a \<le> t" "b \<le> t" "c \<le> t" "d \<le> t" by simp_all
    with nn(1) t(2) have tp: "0 < t" by simp
    have q: "\<exists>p. jsDiv (Fin x) total = Fin p \<and> \<bar>p - x / t\<bar> \<le> 1 / 2 ^ 54 \<and>
               0 \<le> p \<and> p \<le> 1 \<and> (\<exists>k. p = of_int k * 2 powi (- 1074))"
      if "0 \<le> x" "x \<le> t" for x
    proof -
      from that tp have "0 \<le> x / t" "x / t \<le> 1" by simp_all
      then obtain p where p: "roundD (x / t) = Fin p" "0 \<le> p" "p \<le> 1"
        "\<bar>p - x / t\<bar> \<le> 1 / 2 ^ 54"
        by (rule roundD_unit_error)
      from p(1) have "\<exists>k. p = of_int k * 2 powi (- 1074)" by (rule roundD_on_grid)
      with p show ?thesis using t by simp
    qed
    from q [OF nn(1) le(1)] obtain p1 where
      p1: "jsDiv (Fin a) total = Fin p1" "\<bar>p1 - a / t\<bar> \<le> 1 / 2 ^ 54"
        "0 \<le> p1" "p1 \<le> 1" "\<exists>k. p1 = of_int k * 2 powi (- 1074)" by blast
    from q [OF nn(2) le(2)] obtain p2 where
      p2: "jsDiv (Fin b) total = Fin p2" "\<bar>p2 - b / t\<bar> \<le> 1 / 2 ^ 54"
        "0 \<le> p2" "p2 \<le> 1" "\<exists>k. p2 = of_int k * 2 powi (- 1074)" by blast
    from q [OF nn(3) le(3)] obtain p3 where
      p3: "jsDiv (Fin c) total = Fin p3" "\<bar>p3 - c / t\<bar> \<le> 1 / 2 ^ 54"
        "0 \<le> p3" "p3 \<le> 1" "\<exists>k. p3 = of_int k * 2 powi (- 1074)" by blast
    from q [OF nn(4) le(4)] obtain p4 where
      p4: "jsDiv (Fin d) total = Fin p4" "\<bar>p4 - d / t\<bar> \<le> 1 / 2 ^ 54"
        "0 \<le> p4" "p4 \<le> 1" "\<exists>k. p4 = of_int k * 2 powi (- 1074)" by blast
    from near [OF t(1)] have b: "(1 - 3 / 2 ^ 53) * (a + b + c + d) \<le> t"
      "t \<le> (1 + 4 / 2 ^ 53) * (a + b + c + d)" by simp_all
    have s: "\<bar>p1 + p2 + p3 + p4 - 1\<bar> \<le> 1 / 2 ^ 50"
      by (rule shares_tolerance [OF tp b p1(2) p2(2) p3(2) p4(2)])
    have n0: "total \<noteq> Fin 0" using t by simp
    have "percClean cr = Some (Fin p1)" "percDirty cr = Some (Fin p2)"
      "percCracked cr = Some (Fin p3)" "percFloorEggs cr = Some (Fin p4)"
      using n0 p1(1) p2(1) p3(1) p4(1) by (simp_all add: pc pd pk pf)
    moreover have "\<exists>w. jsAdd (jsAdd (jsAdd (Fin p1) (Fin p2)) (Fin p3)) (Fin p4) = Fin w \<and>
                \<bar>w - 1\<bar> \<le> 1 / 2 ^ 49"
      by (rule percentages_float_sum
          [OF p1(3,4) p2(3,4) p3(3,4) p4(3,4) p1(5) p2(5) p3(5) p4(5) s])
    ultimately show ?thesis using p1(2) p2(2) p3(2) p4(2) s by blast
  qed
  have c1: "\<forall>a' b' c' d'. a = of_nat a' \<and> b = of_nat b' \<and> c = of_nat c' \<and> d = of_nat d' \<and>
          a' + b' + c' + d' \<le> 2 ^ 53 \<longrightarrow> total = Fin (of_nat (a' + b' + c' + d'))"
    using exact by blast
  have c2: "\<forall>t. total = Fin t \<longrightarrow>
          (1 - 3 / 2 ^ 53) * (a + b + c + d) \<le> t \<and> t \<le> (1 + 4 / 2 ^ 53) * (a + b + c + d)"
    using near by blast
  have c3: "\<forall>t. total = Fin t \<and> t \<noteq> 0 \<longrightarrow>
          (\<exists>p1 p2 p3 p4.
             percClean cr = Some (Fin p1) \<and> percDirty cr = Some (Fin p2) \<and>
             percCracked cr = Some (Fin p3) \<and> percFloorEggs cr = Some (Fin p4) \<and>
             \<bar>p1 - a / t\<bar> \<le> 1 / 2 ^ 54 \<and> \<bar>p2 - b / t\<bar> \<le> 1 / 2 ^ 54 \<and>
             \<bar>p3 - c / t\<bar> \<le> 1 / 2 ^ 54 \<and> \<bar>p4 - d / t\<bar> \<le> 1 / 2 ^ 54 \<and>
             \<bar>p1 + p2 + p3 + p4 - 1\<bar> \<le> 1 / 2 ^ 50 \<and>
             (\<exists>w. jsAdd (jsAdd (jsAdd (Fin p1) (Fin p2)) (Fin p3)) (Fin p4) = Fin w \<and>
                \<bar>w - 1\<bar> \<le> 1 / 2 ^ 49))"
    using tol by blast
  have c4: "percClean cr = None \<longleftrightarrow> total = Fin 0" "percDirty cr = None \<longleftrightarrow> total = Fin 0"
    "percCracked cr = None \<longleftrightarrow> total = Fin 0" "percFloorEggs cr = None \<longleftrightarrow> total = Fin 0"
    by (simp_all add: pc pd pk pf)
  have c5: "total \<noteq> Fin 0 \<longrightarrow>
          percClean cr = Some (jsDiv (Fin a) total) \<and>
          percDirty cr = Some (jsDiv (Fin b) total) \<and>
          percCracked cr = Some (jsDiv (Fin c) total) \<and>
          percFloorEggs cr = Some (jsDiv (Fin d) total) \<and>
          inUnit (percClean cr) \<and> inUnit (percDirty cr) \<and>
          inUnit (percCracked cr) \<and> inUnit (percFloorEggs cr)"
    using main by (simp add: pc pd pk pf)
  have c6: "layingRate cr = None \<longleftrightarrow> birds r = Fin 0"
    "birds r \<noteq> Fin 0 \<longrightarrow> layingRate cr = Some (jsDiv total (birds r))"
    by (simp_all add: lr)
  from main have c7: "total = Fin 0 \<longleftrightarrow> a + b + c + d = 0" by blast
  from ov have c8: "total = PosInf \<longrightarrow>
          percClean cr = Some (Fin 0) \<and> percDirty cr = Some (Fin 0) \<and>
          percCracked cr = Some (Fin 0) \<and> percFloorEggs cr = Some (Fin 0)" by blast
  show ?thesis
    unfolding Let_def cr_def [symmetric] total_def [symmetric]
    by (intro conjI) (rule tot c1 c2 c7 c4 c5 c3 c8 c6)+
qed


theorem computeRecord_totals_and_percentages_witness:
  "isDouble 0 \<and> isDouble 1 \<and> isDouble 4 \<and>
   totalEggs (computeRecord sampleEnv exampleRecord exampleSnapshots) = Fin 6 \<and>
   percDirty (computeRecord sampleEnv exampleRecord exampleSnapshots) = Some (roundD (1 / 6)) \<and>
   inUnit (percDirty (computeRecord sampleEnv exampleRecord exampleSnapshots)) \<and>
   (\<exists>p1 p2 p3 p4.
      percClean (computeRecord sampleEnv exampleRecord exampleSnapshots) = Some (Fin p1) \<and>
      percDirty (computeRecord sampleEnv exampleRecord exampleSnapshots) = Some (Fin p2) \<and>
      percCracked (computeRecord sampleEnv exampleRecord exampleSnapshots) = Some (Fin p3) \<and>
      percFloorEggs (computeRecord sampleEnv exampleRecord exampleSnapshots) = Some (Fin p4) \<and>
      \<bar>p1 + p2 + p3 + p4 - 1\<bar> \<le> 1 / 2 ^ 50 \<and>
      (\<exists>w. jsAdd (jsAdd (jsAdd (Fin p1) (Fin p2)) (Fin p3)) (Fin p4) = Fin w \<and>
         \<bar>w - 1\<bar> \<le> 1 / 2 ^ 49)) \<and>
   layingRate (computeRecord sampleEnv exampleRecord exampleSnapshots) = Some (roundD (3 / 5))"
proof -
  have d: "isDouble 0" "isDouble 1" "isDouble 4"
    using isDouble_of_nat [of 0] isDouble_of_nat [of 1] isDouble_of_nat [of 4] by simp_all
  have h: "clean exampleRecord = Fin 0" "dirty exampleRecord = Fin 1"
    "cracked exampleRecord = Fin 4"
    "floorEggs exampleRecord = Some (Fin 1) \<or> (floorEggs exampleRecord = None \<and> (1::rat) = 0)"
    "jsLe (Fin 0) (birds exampleRecord)"
    by (simp_all add: exampleRecord_def)
  have bi: "birds exampleRecord = Fin 10"
    by (simp add: exampleRecord_def)
  have nn: "(0::rat) \<le> 0" "(0::rat) \<le> 1" "(0::rat) \<le> 4" by simp_all
  note T = computeRecord_totals_and_percentages
    [OF h nn(1,2,3,2) d(1,2,3,2), of sampleEnv exampleSnapshots, unfolded Let_def]
  note T9 = T [THEN conjunct2, THEN conjunct2, THEN conjunct2, THEN conjunct2, THEN conjunct2,
    THEN conjunct2, THEN conjunct2, THEN conjunct2]
  have tot: "totalEggs (computeRecord sampleEnv exampleRecord exampleSnapshots) = Fin 6"
    by (rule example_total)
  have ne: "totalEggs (computeRecord sampleEnv exampleRecord exampleSnapshots) \<noteq> Fin 0"
    by (simp add: tot)
  note c = T9 [THEN conjunct1, rule_format, OF ne]
  from c have iu: "inUnit (percDirty (computeRecord sampleEnv exampleRecord exampleSnapshots))"
    by blast
  from c have "percDirty (computeRecord sampleEnv exampleRecord exampleSnapshots) =
      Some (jsDiv (Fin 1) (totalEggs (computeRecord sampleEnv exampleRecord exampleSnapshots)))"
    by blast
  then have
    pd: "percDirty (computeRecord sampleEnv exampleRecord exampleSnapshots) = Some (roundD (1 / 6))"
    by (simp add: tot)
  from T9 [THEN conjunct2, THEN conjunct1, rule_format, of 6] tot obtain p1 p2 p3 p4 where
    "percClean (computeRecord sampleEnv exampleRecord exampleSnapshots) = Some (Fin p1)"
    "percDirty (computeRecord sampleEnv exampleRecord exampleSnapshots) = Some (Fin p2)"
    "percCracked (computeRecord sampleEnv exampleRecord exampleSnapshots) = Some (Fin p3)"
    "percFloorEggs (computeRecord sampleEnv exampleRecord exampleSnapshots) = Some (Fin p4)"
    "\<bar>p1 + p2 + p3 + p4 - 1\<bar> \<le> 1 / 2 ^ 50"
    "\<exists>w. jsAdd (jsAdd (jsAdd (Fin p1) (Fin p2)) (Fin p3)) (Fin p4) = Fin w \<and>
         \<bar>w - 1\<bar> \<le> 1 / 2 ^ 49"
    by auto
  then have ex: "\<exists>p1 p2 p3 p4.
      percClean (computeRecord sampleEnv exampleRecord exampleSnapshots) = Some (Fin p1) \<and>
      percDirty (computeRecord sampleEnv exampleRecord exampleSnapshots) = Some (Fin p2) \<and>
      percCracked (computeRecord sampleEnv exampleRecord exampleSnapshots) = Some (Fin p3) \<and>
      percFloorEggs (computeRecord sampleEnv exampleRecord exampleSnapshots) = Some (Fin p4) \<and>
      \<bar>p1 + p2 + p3 + p4 - 1\<bar> \<le> 1 / 2 ^ 50 \<and>
      (\<exists>w. jsAdd (jsAdd (jsAdd (Fin p1) (Fin p2)) (Fin p3)) (Fin p4) = Fin w \<and>
         \<bar>w - 1\<bar> \<le> 1 / 2 ^ 49)"
    by blast
  from T9 [THEN conjunct2, THEN conjunct2, THEN conjunct2, THEN conjunct2] tot bi have
    lr: "layingRate (computeRecord sampleEnv exampleRecord exampleSnapshots) = Some (roundD (3 / 5))"
    by simp
  from d tot pd iu ex lr show ?thesis
    by (intro conjI)
qed

text \<open>
  Where the exact reading fails. With 0 clean, 1 dirty, 4 cracked and 1 floor egg the
  percentages are the doubles nearest to 0, 1/6, 2/3 and 1/6; their sum is not 1, neither
  as JavaScript adds them nor as exact numbers. With \<open>2^53\<close> clean eggs and 1 dirty egg
  \<open>totalEggs\<close> is \<open>2^53\<close>, not the sum. With a clean count of \<open>Infinity\<close>, which is not
  negative, the clean percentage is \<open>NaN\<close>. With \<open>2^1023\<close> clean and \<open>2^1023\<close> dirty eggs
  the sum overflows and all four percentages are 0.
\<close>

theorem computeRecord_percentages_sum_counterexample:
  "totalEggs (computeRecord sampleEnv exampleRecord exampleSnapshots) = Fin 6 \<and>
   percClean (computeRecord sampleEnv exampleRecord exampleSnapshots) = Some (Fin 0) \<and>
   percDirty (computeRecord sampleEnv exampleRecord exampleSnapshots) =
     Some (Fin (6004799503160661 / 36028797018963968)) \<and>
   percCracked (computeRecord sampleEnv exampleRecord exampleSnapshots) =
     Some (Fin (6004799503160661 / 9007199254740992)) \<and>
   percFloorEggs (computeRecord sampleEnv exampleRecord exampleSnapshots) =
     Some (Fin (6004799503160661 / 36028797018963968)) \<and>
   jsAdd (jsAdd (jsAdd (Fin 0) (Fin (6004799503160661 / 36028797018963968)))
                (Fin (6004799503160661 / 9007199254740992)))
         (Fin (6004799503160661 / 36028797018963968))
     = Fin (9007199254740991 / 9007199254740992) \<and>
   Fin (9007199254740991 / 9007199254740992) \<noteq> Fin 1 \<and>
   (0 + 6004799503160661 / 36028797018963968 + 6004799503160661 / 9007199254740992
      + 6004799503160661 / 36028797018963968 :: rat) \<noteq> 1 \<and>
   isDouble (2 ^ 53) \<and>
   totalEggs (computeRecord sampleEnv
       (exampleRecord \<lparr> clean := Fin (2 ^ 53), dirty := Fin 1, cracked := Fin 0, floorEggs := None \<rparr>)
       exampleSnapshots) = Fin (2 ^ 53) \<and>
   (2 ^ 53 + 1 + 0 + 0 :: rat) \<noteq> 2 ^ 53 \<and>
   jsLe (Fin 0) PosInf \<and>
   totalEggs (computeRecord sampleEnv (exampleRecord \<lparr> clean := PosInf \<rparr>) exampleSnapshots)
     = PosInf \<and>
   percClean (computeRecord sampleEnv (exampleRecord \<lparr> clean := PosInf \<rparr>) exampleSnapshots)
     = Some NaN \<and>
   \<not> inUnit (percClean (computeRecord sampleEnv (exampleRecord \<lparr> clean := PosInf \<rparr>)
       exampleSnapshots)) \<and>
   isDouble (2 ^ 1023) \<and>
   totalEggs (computeRecord sampleEnv
       (exampleRecord \<lparr> clean := Fin (2 ^ 1023), dirty := Fin (2 ^ 1023) \<rparr>) exampleSnapshots)
     = PosInf \<and>
   percClean (computeRecord sampleEnv
       (exampleRecord \<lparr> clean := Fin (2 ^ 1023), dirty := Fin (2 ^ 1023) \<rparr>) exampleSnapshots)
     = Some (Fin 0) \<and>
   percDirty (computeRecord sampleEnv
       (exampleRecord \<lparr> clean := Fin (2 ^ 1023), dirty := Fin (2 ^ 1023) \<rparr>) exampleSnapshots)
     = Some (Fin 0) \<and>
   percCracked (computeRecord sampleEnv
       (exampleRecord \<lparr> clean := Fin (2 ^ 1023), dirty := Fin (2 ^ 1023) \<rparr>) exampleSnapshots)
     = Some (Fin 0) \<and>
   percFloorEggs (computeRecord sampleEnv
       (exampleRecord \<lparr> clean := Fin (2 ^ 1023), dirty := Fin (2 ^ 1023) \<rparr>) exampleSnapshots)
     = Some (Fin 0)"
proof -
  have "roundD (0 + 6004799503160661 / 36028797018963968)
          = Fin (6004799503160661 / 36028797018963968)"
    by (simp add: roundD_eval)
  then have s: "jsAdd (jsAdd (jsAdd (Fin 0) (Fin (6004799503160661 / 36028797018963968)))
                (Fin (6004799503160661 / 9007199254740992)))
         (Fin (6004799503160661 / 36028797018963968))
     = Fin (9007199254740991 / 9007199254740992)"
    by (simp only: jsAdd.simps example_sums)
  have a: "totalEggs (computeRecord sampleEnv exampleRecord exampleSnapshots) = Fin 6 \<and>
   percClean (computeRecord sampleEnv exampleRecord exampleSnapshots) = Some (Fin 0) \<and>
   percDirty (computeRecord sampleEnv exampleRecord exampleSnapshots) =
     Some (Fin (6004799503160661 / 36028797018963968)) \<and>
   percCracked (computeRecord sampleEnv exampleRecord exampleSnapshots) =
     Some (Fin (6004799503160661 / 9007199254740992)) \<and>
   percFloorEggs (computeRecord sampleEnv exampleRecord exampleSnapshots) =
     Some (Fin (6004799503160661 / 36028797018963968))"
    by (simp add: example_total example_percentages)
  have n: "Fin (9007199254740991 / 9007199254740992) \<noteq> Fin 1"
    "(0 + 6004799503160661 / 36028797018963968 + 6004799503160661 / 9007199254740992
      + 6004799503160661 / 36028797018963968 :: rat) \<noteq> 1"
    "(2 ^ 53 + 1 + 0 + 0 :: rat) \<noteq> 2 ^ 53" "jsLe (Fin 0) PosInf"
    by simp_all
  have d: "isDouble (2 ^ 53)" "isDouble (2 ^ 1023)"
    by (simp_all only: isDouble_def big_doubles)
  have b: "totalEggs (computeRecord sampleEnv
       (exampleRecord \<lparr> clean := Fin (2 ^ 53), dirty := Fin 1, cracked := Fin 0, floorEggs := None \<rparr>)
       exampleSnapshots) = Fin (2 ^ 53)"
    unfolding computed_fields(1) using big_doubles(1,2) by simp
  have c: "totalEggs (computeRecord sampleEnv (exampleRecord \<lparr> clean := PosInf \<rparr>) exampleSnapshots)
     = PosInf"
    "percClean (computeRecord sampleEnv (exampleRecord \<lparr> clean := PosInf \<rparr>) exampleSnapshots)
     = Some NaN"
    "\<not> inUnit (percClean (computeRecord sampleEnv (exampleRecord \<lparr> clean := PosInf \<rparr>)
       exampleSnapshots))"
    unfolding computed_fields(1,2)
    by (simp_all add: exampleRecord_def truthyNum_def inUnit_def)
  have t: "totalEggs (computeRecord sampleEnv
       (exampleRecord \<lparr> clean := Fin (2 ^ 1023), dirty := Fin (2 ^ 1023) \<rparr>) exampleSnapshots)
     = PosInf"
    unfolding computed_fields(1) using big_doubles(4)
    by (simp add: exampleRecord_def truthyNum_def)
  have o: "percClean (computeRecord sampleEnv
       (exampleRecord \<lparr> clean := Fin (2 ^ 1023), dirty := Fin (2 ^ 1023) \<rparr>) exampleSnapshots)
     = Some (Fin 0)"
    "percDirty (computeRecord sampleEnv
       (exampleRecord \<lparr> clean := Fin (2 ^ 1023), dirty := Fin (2 ^ 1023) \<rparr>) exampleSnapshots)
     = Some (Fin 0)"
    "percCracked (computeRecord sampleEnv
       (exampleRecord \<lparr> clean := Fin (2 ^ 1023), dirty := Fin (2 ^ 1023) \<rparr>) exampleSnapshots)
     = Some (Fin 0)"
    "percFloorEggs (computeRecord sampleEnv
       (exampleRecord \<lparr> clean := Fin (2 ^ 1023), dirty := Fin (2 ^ 1023) \<rparr>) exampleSnapshots)
     = Some (Fin 0)"
    unfolding computed_fields(2-5) t
    by (simp_all add: exampleRecord_def truthyNum_def)
  from a s n d b c t o show ?thesis
    by (intro conjI) simp_all
qed

section \<open>Merging an import\<close>

lemma map_of_mapSet: "map_of (mapSet k v m) = (map_of m)(k \<mapsto> v)"
  by (induction m) (auto simp: fun_eq_iff)

lemma fst_set_mapSet: "fst ` set (mapSet k v m) = insert k (fst ` set m)"
  by (induction m) auto

lemma distinct_mapSet: "distinct (map fst m) \<Longrightarrow> distinct (map fst (mapSet k v m))"
proof (induction m)
  case Nil
  then show ?case by simp
next
  case (Cons p ps)
  then show ?case using fst_set_mapSet [of k v ps] by (auto simp: image_iff)
qed

lemma lastWith_snoc:
  "lastWith keyOf k (rs @ [r]) = (if keyOf r = k then Some r else lastWith keyOf k rs)"
  by (simp add: lastWith_def)

lemma firstWith_snoc:
  "firstWith keyOf k (rs @ [r]) =
     (case firstWith keyOf k rs of Some f \<Rightarrow> Some f
      | None \<Rightarrow> if keyOf r = k then Some r else None)"
  by (induction rs) (auto simp: firstWith_def)

lemma firstWith_None_lastWith: "firstWith keyOf k rs = None \<longleftrightarrow> lastWith keyOf k rs = None"
  by (simp add: firstWith_def lastWith_def find_None_iff)

lemma existing_map:
  "map_of (foldl (\<lambda>m r. mapSet (keyOf r) r m) [] prev) k = lastWith keyOf k prev"
  by (induction prev rule: rev_induct) (simp_all add: lastWith_snoc map_of_mapSet lastWith_def)

lemma existing_distinct:
  "distinct (map fst (foldl (\<lambda>m r. mapSet (keyOf r) r m) [] prev))"
  by (induction prev rule: rev_induct) (simp_all add: distinct_mapSet)

lemma map_of_importStep:
  "map_of (importStep keyOf keepId m n) =
     (map_of m)(keyOf n \<mapsto> (case map_of m (keyOf n) of Some ex \<Rightarrow> keepId n ex | None \<Rightarrow> n))"
  by (simp add: importStep_def Let_def map_of_mapSet split: option.splits)

lemma distinct_importStep:
  "distinct (map fst m) \<Longrightarrow> distinct (map fst (importStep keyOf keepId m n))"
  by (simp add: importStep_def Let_def distinct_mapSet split: option.splits)

lemma merged_map:
  assumes idem: "\<And>a. keepId a a = a"
    and chain: "\<And>a b c. keepId a (keepId b c) = keepId a c"
  shows "map_of (foldl (importStep keyOf keepId)
                  (foldl (\<lambda>m r. mapSet (keyOf r) r m) [] prev) new) k
           = mergedEntry keyOf keepId prev new k"
proof (induction new rule: rev_induct)
  case Nil
  then show ?case by (simp add: mergedEntry_def existing_map lastWith_def)
next
  case (snoc n new)
  show ?case
  proof (cases "keyOf n = k")
    case False
    then have "mergedEntry keyOf keepId prev (new @ [n]) k = mergedEntry keyOf keepId prev new k"
      by (auto simp: mergedEntry_def lastWith_snoc firstWith_snoc split: option.splits)
    with False snoc show ?thesis by (simp add: map_of_importStep)
  next
    case True
    show ?thesis
    proof (cases "lastWith keyOf k new")
      case None
      then have f: "firstWith keyOf k new = None" by (simp add: firstWith_None_lastWith)
      from None f True snoc show ?thesis
        by (simp add: map_of_importStep mergedEntry_def lastWith_snoc firstWith_snoc idem
            split: option.splits)
    next
      case (Some n')
      then obtain f where f: "firstWith keyOf k new = Some f"
        using firstWith_None_lastWith [of keyOf k new] by (cases "firstWith keyOf k new") auto
      from Some f True snoc show ?thesis
        by (auto simp: map_of_importStep mergedEntry_def lastWith_snoc firstWith_snoc chain
            split: option.splits)
    qed
  qed
qed

lemma merged_distinct:
  "distinct (map fst (foldl (importStep keyOf keepId)
                  (foldl (\<lambda>m r. mapSet (keyOf r) r m) [] prev) new))"
  by (induction new rule: rev_induct) (simp_all add: existing_distinct distinct_importStep)


lemma mergedEntry_key:
  assumes keep: "\<And>a b. keyOf (keepId a b) = keyOf a"
    and "mergedEntry keyOf keepId prev new k = Some x"
  shows "keyOf x = k"
proof -
  have lw: "keyOf r = k" if "lastWith keyOf k rs = Some r" for rs r
    using that by (auto simp: lastWith_def find_Some_iff)
  from assms(2) show ?thesis
    by (auto simp: mergedEntry_def keep split: option.splits dest: lw)
qed

lemma importMerge_entries:
  assumes idem: "\<And>a. keepId a a = a"
    and chain: "\<And>a b c. keepId a (keepId b c) = keepId a c"
    and keep: "\<And>a b. keyOf (keepId a b) = keyOf a"
  shows "x \<in> set (importMerge keyOf keepId prev new) \<longleftrightarrow>
           mergedEntry keyOf keepId prev new (keyOf x) = Some x"
    and "distinct (map keyOf (importMerge keyOf keepId prev new))"
proof -
  define M where "M = foldl (importStep keyOf keepId)
                        (foldl (\<lambda>m r. mapSet (keyOf r) r m) [] prev) new"
  have d: "distinct (map fst M)" unfolding M_def by (rule merged_distinct)
  have m: "map_of M k = mergedEntry keyOf keepId prev new k" for k
    unfolding M_def by (rule merged_map [OF idem chain])
  have res: "importMerge keyOf keepId prev new = map snd M"
    by (simp add: importMerge_def M_def)
  have ent: "keyOf v = k" if "(k, v) \<in> set M" for k v
  proof -
    from that d have "map_of M k = Some v" by simp
    then have "mergedEntry keyOf keepId prev new k = Some v" by (simp add: m)
    then show ?thesis
      by (rule mergedEntry_key [of keyOf keepId, rotated]) (rule keep)
  qed
  show "x \<in> set (importMerge keyOf keepId prev new) \<longleftrightarrow>
           mergedEntry keyOf keepId prev new (keyOf x) = Some x"
  proof
    assume "x \<in> set (importMerge keyOf keepId prev new)"
    then obtain k where kx: "(k, x) \<in> set M" by (auto simp: res)
    then have "map_of M k = Some x" using d by simp
    moreover have "keyOf x = k" using kx by (rule ent)
    ultimately show "mergedEntry keyOf keepId prev new (keyOf x) = Some x" by (simp add: m)
  next
    assume "mergedEntry keyOf keepId prev new (keyOf x) = Some x"
    then have "map_of M (keyOf x) = Some x" by (simp add: m)
    then have "(keyOf x, x) \<in> set M" by (rule map_of_SomeD)
    then show "x \<in> set (importMerge keyOf keepId prev new)" by (force simp: res)
  qed
  have eq: "map (keyOf \<circ> snd) M = map fst M"
    by (rule map_cong [OF refl]) (use ent in auto)
  show "distinct (map keyOf (importMerge keyOf keepId prev new))"
    unfolding res map_map eq by (rule d)
qed

lemma aviaryValue_facts:
  "length (aviaryValue a) = 9" "124 \<notin> set (aviaryValue a)"
  "aviaryValue a = aviaryValue b \<longleftrightarrow> a = b"
  by (cases a; cases b; simp add: aviaryValue_def)+

lemma recordKey_eq:
  "recordKey a = recordKey b \<longleftrightarrow> date a = date b \<and> aviary a = aviary b"
proof -
  have "date a @ 124 # aviaryValue (aviary a) = date b @ 124 # aviaryValue (aviary b)
          \<longleftrightarrow> date a = date b \<and> aviaryValue (aviary a) = aviaryValue (aviary b)"
    by (subst append_eq_append_conv) (auto simp: aviaryValue_facts(1))
  then show ?thesis by (simp add: recordKey_def aviaryValue_facts(3))
qed

lemma split_at_bar:
  assumes "124 \<notin> set d1" "124 \<notin> set d2" "d1 @ 124 # r1 = d2 @ 124 # r2"
  shows "d1 = d2 \<and> r1 = r2"
  using assms
proof (induction d1 arbitrary: d2)
  case Nil
  then show ?case by (cases d2) auto
next
  case (Cons c d1)
  then show ?case by (cases d2) auto
qed

lemma charKey_eq:
  assumes "124 \<notin> set (CharacterizationRecord.date a)" "124 \<notin> set (CharacterizationRecord.date b)"
  shows "charKey a = charKey b \<longleftrightarrow>
           CharacterizationRecord.date a = CharacterizationRecord.date b \<and>
           CharacterizationRecord.aviary a = CharacterizationRecord.aviary b \<and>
           tpl (CharacterizationRecord.batchId a) = tpl (CharacterizationRecord.batchId b)"
proof
  assume "charKey a = charKey b"
  then have e: "CharacterizationRecord.date a @ 124 #
                  (aviaryValue (CharacterizationRecord.aviary a) @ 124 #
                     tpl (CharacterizationRecord.batchId a))
              = CharacterizationRecord.date b @ 124 #
                  (aviaryValue (CharacterizationRecord.aviary b) @ 124 #
                     tpl (CharacterizationRecord.batchId b))"
    by (simp add: charKey_def)
  from split_at_bar [OF assms e]
  have d: "CharacterizationRecord.date a = CharacterizationRecord.date b"
    and r: "aviaryValue (CharacterizationRecord.aviary a) @ 124 # tpl (CharacterizationRecord.batchId a)
          = aviaryValue (CharacterizationRecord.aviary b) @ 124 # tpl (CharacterizationRecord.batchId b)"
    by simp_all
  from split_at_bar [OF aviaryValue_facts(2) aviaryValue_facts(2) r] d
  show "CharacterizationRecord.date a = CharacterizationRecord.date b \<and>
           CharacterizationRecord.aviary a = CharacterizationRecord.aviary b \<and>
           tpl (CharacterizationRecord.batchId a) = tpl (CharacterizationRecord.batchId b)"
    by (simp add: aviaryValue_facts(3))
next
  assume "CharacterizationRecord.date a = CharacterizationRecord.date b \<and>
           CharacterizationRecord.aviary a = CharacterizationRecord.aviary b \<and>
           tpl (CharacterizationRecord.batchId a) = tpl (CharacterizationRecord.batchId b)"
  then show "charKey a = charKey b" by (simp add: charKey_def)
qed

lemma keepId_record:
  "(a::EggRecord) \<lparr> id' := id' a \<rparr> = a"
  "(a::EggRecord) \<lparr> id' := id' (b \<lparr> id' := id' c \<rparr>) \<rparr> = a \<lparr> id' := id' (c::EggRecord) \<rparr>"
  "recordKey (a \<lparr> id' := i \<rparr>) = recordKey a"
  by (simp_all add: recordKey_def)

lemma keepId_char:
  "(a::CharacterizationRecord) \<lparr> CharacterizationRecord.id' := CharacterizationRecord.id' a \<rparr> = a"
  "(a::CharacterizationRecord) \<lparr> CharacterizationRecord.id' :=
      CharacterizationRecord.id' (b \<lparr> CharacterizationRecord.id' := CharacterizationRecord.id' c \<rparr>) \<rparr>
    = a \<lparr> CharacterizationRecord.id' := CharacterizationRecord.id' (c::CharacterizationRecord) \<rparr>"
  "charKey (a \<lparr> CharacterizationRecord.id' := i \<rparr>) = charKey a"
  by (simp_all add: charKey_def)

lemma handleImportRecords_entries:
  "x \<in> set (handleImportRecords prev new) \<longleftrightarrow>
     mergedEntry recordKey (\<lambda>n p. n \<lparr> id' := id' p \<rparr>) prev new (recordKey x) = Some x"
  "distinct (map recordKey (handleImportRecords prev new))"
  unfolding handleImportRecords_def
  by (rule importMerge_entries; simp add: keepId_record)+

lemma handleImportCharRecords_entries:
  "y \<in> set (handleImportCharRecords prev new) \<longleftrightarrow>
     mergedEntry charKey
       (\<lambda>n p. n \<lparr> CharacterizationRecord.id' := CharacterizationRecord.id' p \<rparr>)
       prev new (charKey y) = Some y"
  "distinct (map charKey (handleImportCharRecords prev new))"
  unfolding handleImportCharRecords_def
  by (rule importMerge_entries; simp add: keepId_char)+

lemmas import_eval = handleImportRecords_def importMerge_def importStep_def recordKey_def
  aviaryValue_def incomingSameKey_def incomingFresh_def incomingFreshAgain_def exampleRecord_def
  Let_def

lemma import_example:
  "handleImportRecords [exampleRecord] [incomingSameKey, incomingFresh] =
     [incomingSameKey \<lparr> id' := js ''rec-0001'' \<rparr>, incomingFresh]"
  by (simp add: import_eval)

text \<open>
  C5, as the code has it. The result of the import has one entry per key, and the entry
  of a key is the one the specification describes (\<open>mergedEntry\<close>): the content of the last
  incoming record with the key, under the identifier of the existing record with the key
  or else of the first incoming record with it; without an incoming record, the existing
  record. The key of a production record stands for its date and aviary; the key of a
  characterization record stands for date, aviary and batch (as a template prints the
  batch) when the dates contain no bar. In particular: the last incoming record of a key that an existing record has
  appears with the existing identifier; an incoming record whose key is fresh and occurs
  once among the incoming records appears unchanged; an existing record whose key no
  incoming record has appears unchanged.
\<close>

theorem import_merge_last_write_wins:
  "distinct (map recordKey (handleImportRecords prev new)) \<and>
   (x \<in> set (handleImportRecords prev new) \<longleftrightarrow>
      mergedEntry recordKey (\<lambda>n p. n \<lparr> id' := id' p \<rparr>) prev new (recordKey x) = Some x) \<and>
   (recordKey a = recordKey b \<longleftrightarrow> date a = date b \<and> aviary a = aviary b) \<and>
   (lastWith recordKey (recordKey n) new = Some n \<and>
    lastWith recordKey (recordKey n) prev = Some p \<longrightarrow>
      n \<lparr> id' := id' p \<rparr> \<in> set (handleImportRecords prev new)) \<and>
   (lastWith recordKey (recordKey n) new = Some n \<and>
    firstWith recordKey (recordKey n) new = Some n \<and>
    lastWith recordKey (recordKey n) prev = None \<longrightarrow>
      n \<in> set (handleImportRecords prev new)) \<and>
   (lastWith recordKey (recordKey p) prev = Some p \<and>
    lastWith recordKey (recordKey p) new = None \<longrightarrow>
      p \<in> set (handleImportRecords prev new)) \<and>
   distinct (map charKey (handleImportCharRecords prevC newC)) \<and>
   (y \<in> set (handleImportCharRecords prevC newC) \<longleftrightarrow>
      mergedEntry charKey
        (\<lambda>n p. n \<lparr> CharacterizationRecord.id' := CharacterizationRecord.id' p \<rparr>)
        prevC newC (charKey y) = Some y) \<and>
   (124 \<notin> set (CharacterizationRecord.date u) \<and> 124 \<notin> set (CharacterizationRecord.date v) \<longrightarrow>
      (charKey u = charKey v \<longleftrightarrow>
         CharacterizationRecord.date u = CharacterizationRecord.date v \<and>
         CharacterizationRecord.aviary u = CharacterizationRecord.aviary v \<and>
         tpl (CharacterizationRecord.batchId u) = tpl (CharacterizationRecord.batchId v)))"
proof -
  have d: "n \<lparr> id' := id' p \<rparr> \<in> set (handleImportRecords prev new)"
    if "lastWith recordKey (recordKey n) new = Some n"
      "lastWith recordKey (recordKey n) prev = Some p"
    using that by (simp add: handleImportRecords_entries(1) keepId_record(3) mergedEntry_def)
  have e: "n \<in> set (handleImportRecords prev new)"
    if "lastWith recordKey (recordKey n) new = Some n"
      "firstWith recordKey (recordKey n) new = Some n"
      "lastWith recordKey (recordKey n) prev = None"
    using that by (simp add: handleImportRecords_entries(1) mergedEntry_def)
  have f: "p \<in> set (handleImportRecords prev new)"
    if "lastWith recordKey (recordKey p) prev = Some p"
      "lastWith recordKey (recordKey p) new = None"
    using that by (simp add: handleImportRecords_entries(1) mergedEntry_def)
  show ?thesis
    using handleImportRecords_entries(1) [of x prev new] handleImportRecords_entries(2) [of prev new]
      handleImportCharRecords_entries(1) [of y prevC newC]
      handleImportCharRecords_entries(2) [of prevC newC]
      recordKey_eq [of a b] charKey_eq [of u v] d e f
    by blast
qed

theorem import_merge_last_write_wins_witness:
  "lastWith recordKey (recordKey incomingSameKey) [incomingSameKey, incomingFresh] = Some incomingSameKey \<and>
   lastWith recordKey (recordKey incomingSameKey) [exampleRecord] = Some exampleRecord \<and>
   incomingSameKey \<lparr> id' := id' exampleRecord \<rparr>
     \<in> set (handleImportRecords [exampleRecord] [incomingSameKey, incomingFresh]) \<and>
   lastWith recordKey (recordKey incomingFresh) [incomingSameKey, incomingFresh] = Some incomingFresh \<and>
   firstWith recordKey (recordKey incomingFresh) [incomingSameKey, incomingFresh] = Some incomingFresh \<and>
   lastWith recordKey (recordKey incomingFresh) [exampleRecord] = None \<and>
   incomingFresh \<in> set (handleImportRecords [exampleRecord] [incomingSameKey, incomingFresh]) \<and>
   lastWith recordKey (recordKey exampleRecord) [incomingFresh] = None \<and>
   exampleRecord \<in> set (handleImportRecords [exampleRecord] [incomingFresh]) \<and>
   124 \<notin> set (CharacterizationRecord.date (exampleSnapshots ! 0)) \<and>
   124 \<notin> set (CharacterizationRecord.date (exampleSnapshots ! 1)) \<and>
   charKey (exampleSnapshots ! 0) \<noteq> charKey (exampleSnapshots ! 1)"
proof -
  have h: "lastWith recordKey (recordKey incomingSameKey) [incomingSameKey, incomingFresh] = Some incomingSameKey"
    "lastWith recordKey (recordKey incomingSameKey) [exampleRecord] = Some exampleRecord"
    "lastWith recordKey (recordKey incomingFresh) [incomingSameKey, incomingFresh] = Some incomingFresh"
    "firstWith recordKey (recordKey incomingFresh) [incomingSameKey, incomingFresh] = Some incomingFresh"
    "lastWith recordKey (recordKey incomingFresh) [exampleRecord] = None"
    "lastWith recordKey (recordKey exampleRecord) [incomingFresh] = None"
    "lastWith recordKey (recordKey exampleRecord) [exampleRecord] = Some exampleRecord"
    by (simp_all add: lastWith_def firstWith_def import_eval)
  have k: "124 \<notin> set (CharacterizationRecord.date (exampleSnapshots ! 0))"
    "124 \<notin> set (CharacterizationRecord.date (exampleSnapshots ! 1))"
    "CharacterizationRecord.date (exampleSnapshots ! 0) \<noteq> CharacterizationRecord.date (exampleSnapshots ! 1)"
    by (simp_all add: exampleSnapshots_def)
  note T1 = import_merge_last_write_wins [where prev = "[exampleRecord]"
        and new = "[incomingSameKey, incomingFresh]" and n = incomingSameKey and p = exampleRecord
        and u = "exampleSnapshots ! 0" and v = "exampleSnapshots ! 1" and x = exampleRecord
        and a = exampleRecord and b = exampleRecord and y = "exampleSnapshots ! 0"
        and prevC = "[]" and newC = "[]"]
  note T2 = import_merge_last_write_wins [where prev = "[exampleRecord]"
        and new = "[incomingSameKey, incomingFresh]" and n = incomingFresh and p = exampleRecord
        and u = "exampleSnapshots ! 0" and v = "exampleSnapshots ! 1" and x = exampleRecord
        and a = exampleRecord and b = exampleRecord and y = "exampleSnapshots ! 0"
        and prevC = "[]" and newC = "[]"]
  note T3 = import_merge_last_write_wins [where prev = "[exampleRecord]"
        and new = "[incomingFresh]" and n = incomingFresh and p = exampleRecord
        and u = "exampleSnapshots ! 0" and v = "exampleSnapshots ! 1" and x = exampleRecord
        and a = exampleRecord and b = exampleRecord and y = "exampleSnapshots ! 0"
        and prevC = "[]" and newC = "[]"]
  have c1: "incomingSameKey \<lparr> id' := id' exampleRecord \<rparr>
     \<in> set (handleImportRecords [exampleRecord] [incomingSameKey, incomingFresh])"
    using T1 h(1,2) by blast
  have c2: "incomingFresh \<in> set (handleImportRecords [exampleRecord] [incomingSameKey, incomingFresh])"
    using T2 h(3,4,5) by blast
  have c3: "exampleRecord \<in> set (handleImportRecords [exampleRecord] [incomingFresh])"
    using T3 h(6,7) by blast
  have c4: "charKey (exampleSnapshots ! 0) \<noteq> charKey (exampleSnapshots ! 1)"
    using T1 k by blast
  from h k c1 c2 c3 c4 show ?thesis by blast
qed

text \<open>
  Two incoming records with the same date and aviary, which no existing record has: the
  result holds the content of the second under the identifier of the first, so that
  neither record appears unchanged and the identifier is not that of the last write.
\<close>

theorem import_merge_duplicate_fresh_key_counterexample:
  "handleImportRecords [] [incomingFresh, incomingFreshAgain] =
     [incomingFreshAgain \<lparr> id' := js ''imp-0002'' \<rparr>] \<and>
   id' incomingFresh = js ''imp-0002'' \<and>
   id' incomingFreshAgain = js ''imp-0003'' \<and>
   recordKey incomingFresh = recordKey incomingFreshAgain \<and>
   incomingFreshAgain \<lparr> id' := js ''imp-0002'' \<rparr> \<noteq> incomingFreshAgain \<and>
   incomingFreshAgain \<lparr> id' := js ''imp-0002'' \<rparr> \<noteq> incomingFresh"
  by (simp add: import_eval)


section \<open>Numeric coercion of CSV fields\<close>

lemma trim_Cons_nonspace:
  assumes "trim v \<noteq> []"
  obtains c rest where "trim v = c # rest" "\<not> isWhiteSpace c"
proof -
  define w where "w = dropWhile isWhiteSpace v"
  have t: "trim v = rev (dropWhile isWhiteSpace (rev w))" by (simp add: trim_def w_def)
  with assms have "w \<noteq> []" by auto
  then obtain c r where w: "w = c # r" by (cases w) auto
  then have c: "\<not> isWhiteSpace c"
    using hd_dropWhile [of isWhiteSpace v] by (simp add: w_def)
  have "rev (dropWhile isWhiteSpace (rev r @ [c])) = c # rev (dropWhile isWhiteSpace (rev r))"
    using c by (simp add: dropWhile_append)
  with t w that c show thesis by simp
qed

lemma parseFloat_not_numeric:
  assumes "\<not> isWhiteSpace c" "\<not> numericStart c"
  shows "parseFloat (c # rest) = NaN"
proof -
  from assms(2) have n: "c \<noteq> 45" "c \<noteq> 43" "c \<noteq> 73" "c \<noteq> 46" "\<not> isDigit c"
    by (auto simp: numericStart_def)
  show ?thesis
    using assms(1) n by (simp add: parseFloat_def Let_def)
qed


lemma replaceFirst_Cons_other: "c \<noteq> a \<Longrightarrow> replaceFirst a b (c # s) = c # replaceFirst a b s"
  by simp

text \<open>
  C8, as the code has it. The numeric coercion never raises. For a field that is absent,
  empty or blank it gives 0 where a number is required and \<open>null\<close> where the weight may
  be missing. For any other field it gives what \<open>parseFloat\<close> reads from the trimmed text
  with the first comma as decimal point, in both cases; so a text that does not start
  like a number (with a digit, a sign, a point or comma, or \<open>I\<close>) gives \<open>NaN\<close>.
\<close>

theorem parseNum_blank_or_NaN:
  "((val = None \<or> val = Some v) \<and> trim v = [] \<longrightarrow>
      parseNum val = Fin 0 \<and> parseNumNullable val = None) \<and>
   (trim v \<noteq> [] \<longrightarrow>
      parseNum (Some v) = parseFloat (replaceFirst 44 46 (trim v)) \<and>
      parseNumNullable (Some v) = Some (parseNum (Some v))) \<and>
   (trim v \<noteq> [] \<and> \<not> numericStart (hd (trim v)) \<longrightarrow>
      parseNum (Some v) = NaN \<and> parseNumNullable (Some v) = Some NaN)"
proof -
  have blank: "parseNum val = Fin 0 \<and> parseNumNullable val = None"
    if "val = None \<or> val = Some v" "trim v = []"
    using that by (auto simp: parseNum_def parseNumNullable_def)
  have ne: "v \<noteq> []" if "trim v \<noteq> []"
    using that by (auto simp: trim_def)
  have some: "parseNum (Some v) = parseFloat (replaceFirst 44 46 (trim v)) \<and>
      parseNumNullable (Some v) = Some (parseNum (Some v))" if "trim v \<noteq> []"
    using that ne by (simp add: parseNum_def parseNumNullable_def Let_def)
  have nan: "parseNum (Some v) = NaN \<and> parseNumNullable (Some v) = Some NaN"
    if t: "trim v \<noteq> []" and n: "\<not> numericStart (hd (trim v))"
  proof -
    from t obtain c rest where c: "trim v = c # rest" "\<not> isWhiteSpace c"
      by (rule trim_Cons_nonspace)
    with n have nc: "\<not> numericStart c" by simp
    then have "c \<noteq> 44" by (simp add: numericStart_def)
    then have "parseFloat (replaceFirst 44 46 (trim v)) = NaN"
      using parseFloat_not_numeric [OF c(2) nc] by (simp add: c(1))
    with some [OF t] show ?thesis by simp
  qed
  show ?thesis
  proof (intro conjI impI)
    assume h: "(val = None \<or> val = Some v) \<and> trim v = []"
    then have "parseNum val = Fin 0 \<and> parseNumNullable val = None"
      by (intro blank) simp_all
    then show "parseNum val = Fin 0" "parseNumNullable val = None" by simp_all
  next
    assume h: "trim v \<noteq> []"
    from some [OF h] show "parseNum (Some v) = parseFloat (replaceFirst 44 46 (trim v))"
      "parseNumNullable (Some v) = Some (parseNum (Some v))" by simp_all
  next
    assume h: "trim v \<noteq> [] \<and> \<not> numericStart (hd (trim v))"
    then have "parseNum (Some v) = NaN \<and> parseNumNullable (Some v) = Some NaN"
      by (intro nan) simp_all
    then show "parseNum (Some v) = NaN" "parseNumNullable (Some v) = Some NaN" by simp_all
  qed
qed

theorem parseNum_blank_or_NaN_witness:
  "trim (js ''  '') = [] \<and> parseNum (Some (js ''  '')) = Fin 0 \<and>
   parseNumNullable (Some (js ''  '')) = None \<and>
   parseNum None = Fin 0 \<and> parseNumNullable None = None \<and>
   trim (js '' n/a '') \<noteq> [] \<and> \<not> numericStart (hd (trim (js '' n/a ''))) \<and>
   parseNum (Some (js '' n/a '')) = NaN \<and> parseNumNullable (Some (js '' n/a '')) = Some NaN"
proof -
  have t: "trim (js ''  '') = []" "trim (js '' n/a '') \<noteq> []"
    "\<not> numericStart (hd (trim (js '' n/a '')))"
    by (simp_all add: trim_def isWhiteSpace_def numericStart_def isDigit_def)
  note T1 = parseNum_blank_or_NaN [where val = "Some (js ''  '')" and v = "js ''  ''"]
  note T2 = parseNum_blank_or_NaN [where val = None and v = "js ''  ''"]
  note T3 = parseNum_blank_or_NaN [where val = None and v = "js '' n/a ''"]
  have a: "parseNum (Some (js ''  '')) = Fin 0 \<and> parseNumNullable (Some (js ''  '')) = None"
    using T1 t(1) by blast
  have b: "parseNum None = Fin 0 \<and> parseNumNullable None = None"
    using T2 t(1) by blast
  have c: "parseNum (Some (js '' n/a '')) = NaN \<and> parseNumNullable (Some (js '' n/a '')) = Some NaN"
    using T3 t(2,3) by blast
  from t a b c show ?thesis by blast
qed

text \<open>The token \<open>abc\<close> is coerced to \<open>NaN\<close>, not to 0 and not to \<open>null\<close>.\<close>

theorem parseNum_unparseable_counterexample:
  "parseNum (Some (js ''abc'')) = NaN \<and> NaN \<noteq> Fin 0 \<and>
   parseNumNullable (Some (js ''abc'')) = Some NaN \<and> Some NaN \<noteq> (None :: number option)"
  by (simp add: parseNum_def parseNumNullable_def trim_def isWhiteSpace_def parseFloat_def
      isDigit_def Let_def)

section \<open>Rows of a CSV file\<close>

text \<open>
  C10. A text with fewer than two non-empty lines, such as an empty file or a header
  alone, gives the empty list in both parsers; no body row is read.
\<close>

theorem parsers_return_empty_below_two_lines:
  assumes "length (csvLines csvText) < 2"
  shows "parseCSV e csvText = Inr [] \<and> parseCharCSV e csvText = Inr []"
  using assms by (simp add: parseCSV_def parseCharCSV_def)

theorem parsers_return_empty_below_two_lines_witness:
  "length (csvLines []) < 2 \<and> parseCSV sampleEnv [] = Inr [] \<and> parseCharCSV sampleEnv [] = Inr [] \<and>
   length (csvLines headerOnlyCsv) < 2 \<and> parseCSV sampleEnv headerOnlyCsv = Inr [] \<and>
   parseCharCSV sampleEnv headerOnlyCsv = Inr []"
proof -
  have l: "length (csvLines []) < 2" "length (csvLines headerOnlyCsv) < 2"
    by (simp_all add: csvLines_def headerOnlyCsv_def trim_def isWhiteSpace_def)
  show ?thesis
    using parsers_return_empty_below_two_lines [OF l(1), of sampleEnv]
      parsers_return_empty_below_two_lines [OF l(2), of sampleEnv] l
    by blast
qed

text \<open>
  The date of a parsed row is never empty: \<open>parseDateFromBr\<close> puts the current date in
  place of an empty or missing one. So the test that should discard a blank row never
  holds, and every row of at least three fields is kept, unless a date makes the parser
  throw (a date with a single \<open>/\<close> does), which ends the whole parse.
\<close>

lemma showNat_Cons: "\<exists>c cs. showNat n = c # cs"
  using showNat_nonempty [of n] by (cases "showNat n") auto

lemma getTodayStr_nonempty: "getTodayStr e \<noteq> []"
  using showNat_nonempty [of "nat (nowFullYear e)"]
  by (simp add: getTodayStr_def showInt_def)

lemma parseDateFromBr_nonempty:
  assumes "parseDateFromBr e v = Inr s"
  shows "s \<noteq> []"
proof (cases v)
  case None
  with assms show ?thesis by (auto simp: parseDateFromBr_def getTodayStr_nonempty)
next
  case (Some t)
  with assms show ?thesis
    by (auto simp: parseDateFromBr_def getTodayStr_nonempty Let_def
        split: if_splits list.splits)
qed

lemma eggRow_never_discards:
  assumes "3 \<le> length (splitCSVLine line delimiter)"
  shows "eggRow e headers delimiter i line \<noteq> Inr None"
proof -
  have "d \<noteq> []" if "parseDateFromBr e v = Inr d" for v d
    using that by (rule parseDateFromBr_nonempty)
  then show ?thesis
    using assms by (auto simp: eggRow_def Let_def split: sum.splits)
qed

lemmas csv_eval = parseCSV_def csvLines_def trim_def isWhiteSpace_def stripBOM_def
  detectDelimiter_def csvHeaders_def splitCSVLine_def stripQuotes_def eggRow_def col_def
  nth_opt_def rowId_def aviaryOf_def truthyStr_def tpl_def aviaryValue_def parseNum_def
  parseNumNullable_def parseFloat_def isDigit_def digitsValue_def digitValue_def
  parseDateFromBr_def getTodayStr_def showInt_def showNat.simps padStart_def sampleEnv_def
  latin1Lower_def Let_def

lemma parseDateFromBr_single_slash:
  "parseDateFromBr e (Some (js ''1/2'')) = Inl TypeError"
  by (simp add: parseDateFromBr_def split_def splitFrom_Cons)

lemma eggRow_short: "eggRow e headers delimiter i line = Inr None \<longleftrightarrow>
    length (splitCSVLine line delimiter) < 3"
proof
  assume "eggRow e headers delimiter i line = Inr None"
  then show "length (splitCSVLine line delimiter) < 3"
    using eggRow_never_discards [of line delimiter e headers i] by (cases "length (splitCSVLine line delimiter) < 3") auto
next
  assume "length (splitCSVLine line delimiter) < 3"
  then show "eggRow e headers delimiter i line = Inr None"
    by (simp add: eggRow_def Let_def)
qed

lemma parseRows_length:
  assumes "\<And>i line. f i line = Inr None \<longleftrightarrow> \<not> P line"
    and "parseRows f i ls = Inr rs"
  shows "length rs = length (filter P ls)"
  using assms(2)
proof (induction ls arbitrary: i rs)
  case Nil
  then show ?case by simp
next
  case (Cons l ls)
  show ?case
  proof (cases "f i l")
    case (Inl err)
    with Cons.prems show ?thesis by simp
  next
    case (Inr o1)
    show ?thesis
    proof (cases o1)
      case None
      with Inr have "\<not> P l" using assms(1) by blast
      with Cons None Inr show ?thesis by simp
    next
      case (Some r)
      with Inr have p: "P l" using assms(1) [of i l] by auto
      from Cons.prems Inr Some obtain rs' where rs': "parseRows f (Suc i) ls = Inr rs'" "rs = r # rs'"
        by (auto split: sum.splits)
      with Cons.IH p show ?thesis by simp
    qed
  qed
qed

lemma parseCSV_keeps_every_row:
  assumes "parseCSV e csvText = Inr rs" "2 \<le> length (csvLines csvText)"
  shows "length rs =
           length (filter (\<lambda>line. 3 \<le> length (splitCSVLine line
                       (detectDelimiter (stripBOM (csvLines csvText ! 0)))))
                     (drop 1 (csvLines csvText)))"
proof -
  define d where "d = detectDelimiter (stripBOM (csvLines csvText ! 0))"
  define h where "h = csvHeaders e (stripBOM (csvLines csvText ! 0)) d"
  from assms have "parseRows (eggRow e h d) 1 (drop 1 (csvLines csvText)) = Inr rs"
    by (simp add: parseCSV_def Let_def d_def h_def)
  then have "length rs = length (filter (\<lambda>line. 3 \<le> length (splitCSVLine line d))
                                   (drop 1 (csvLines csvText)))"
    by (rule parseRows_length [rotated]) (auto simp: eggRow_short)
  then show ?thesis by (simp add: d_def)
qed

text \<open>
  C9 at a file whose single body row has an empty date, 0 clean eggs and 0 birds: the row
  is not discarded; \<open>parseCSV\<close> returns it as a record dated today.
\<close>

theorem parseCSV_keeps_blank_row:
  "parseCSV sampleEnv blankRowCsv =
     Inr [\<lparr> id' = js ''generated-1'', date = js ''2024-03-10'', aviary = A1, batchId = None,
            clean = Fin 0, dirty = Fin 0, cracked = Fin 0, floorEggs = Some (Fin 0),
            birds = Fin 0, weight = None, birdWeight = None, mortality = Fin 0,
            observation = None \<rparr>]"
  by (simp add: blankRowCsv_def csv_eval roundD_def)

end
